theory Spec2Isabelle
  imports Main "HOL-Library.Word"
begin

unbundle bit_operations_syntax

section \<open>Machine types of mold.h\<close>

type_synonym u8 = "8 word"
type_synonym u16 = "16 word"
type_synonym u32 = "32 word"
type_synonym u64 = "64 word"

text \<open>
  A C++ pointer is an optional address: \<open>None\<close> is \<open>nullptr\<close>, \<open>Some a\<close> points at
  the object stored under \<open>a\<close> in the store of its class.
\<close>

type_synonym addr = nat
type_synonym ptr = "addr option"

text \<open>\<open>llvm::ELF::STT_NOTYPE\<close>, the initial \<open>Symbol::type\<close>.\<close>

definition STT_NOTYPE :: u8 where
  "STT_NOTYPE = 0"

section \<open>Symbol, StringPiece, StringPieceRef\<close>

text \<open>
  \<open>struct StringPiece\<close>: \<open>data\<close> is the byte content, \<open>isec\<close> the atomic pointer to the
  winning input section, \<open>output_offset\<close> starts at 0.
\<close>

record StringPiece =
  data :: string
  isec :: ptr
  output_offset :: u32

text \<open>\<open>StringPiece(StringRef data, InputSection *isec)\<close>.\<close>

definition StringPiece_ctor :: "string \<Rightarrow> ptr \<Rightarrow> StringPiece" where
  "StringPiece_ctor d i = \<lparr>data = d, isec = i, output_offset = 0\<rparr>"

text \<open>\<open>StringPiece(const StringPiece &other)\<close> copies all three members.\<close>

definition StringPiece_copy :: "StringPiece \<Rightarrow> StringPiece" where
  "StringPiece_copy other =
     \<lparr>data = data other, isec = isec other, output_offset = output_offset other\<rparr>"

record StringPieceRef =
  piece :: ptr
  input_offset :: u32
  addend :: u32

text \<open>The default member initialisers of \<open>StringPieceRef\<close>.\<close>

definition StringPieceRef_default :: StringPieceRef where
  "StringPieceRef_default = \<lparr>piece = None, input_offset = 0, addend = 0\<rparr>"

text \<open>
  \<open>class Symbol\<close>. The one-bit fields are booleans, \<open>mu\<close> is the spin mutex (\<open>True\<close>
  when held), \<open>flags\<close> the atomic byte of NEEDS_GOT, NEEDS_GOTTP and NEEDS_PLT.
\<close>

record Symbol =
  name :: string
  "file" :: ptr
  input_section :: ptr
  piece_ref :: StringPieceRef
  "value" :: u64
  got_offset :: u32
  gotplt_offset :: u32
  gottp_offset :: u32
  plt_offset :: u32
  relplt_offset :: u32
  shndx :: u32
  mu :: bool
  is_placeholder :: bool
  is_dso :: bool
  is_weak :: bool
  is_undef_weak :: bool
  traced :: bool
  flags :: u8
  visibility :: u8
  type :: u8

text \<open>
  \<open>Symbol(StringRef name, ObjectFile *file = nullptr)\<close>: the initialiser list sets the
  name, the file and the five one-bit flags; every other member takes its default member
  initialiser.
\<close>

definition Symbol_ctor :: "string \<Rightarrow> ptr \<Rightarrow> Symbol" where
  "Symbol_ctor n f =
     \<lparr>name = n, file = f, input_section = None, piece_ref = StringPieceRef_default,
      value = 0, got_offset = 0, gotplt_offset = 0, gottp_offset = 0, plt_offset = 0,
      relplt_offset = 0, shndx = 0, mu = False,
      is_placeholder = False, is_dso = False, is_weak = False, is_undef_weak = False,
      traced = False, flags = 0, visibility = 0, type = STT_NOTYPE\<rparr>"

text \<open>\<open>Symbol(const Symbol &other) : Symbol(other.name, other.file) {}\<close>.\<close>

definition Symbol_copy :: "Symbol \<Rightarrow> Symbol" where
  "Symbol_copy other = Symbol_ctor (name other) (file other)"

section \<open>ConcurrentMap and interning\<close>

text \<open>
  \<open>ConcurrentMap<ValueT>\<close> wraps \<open>tbb::concurrent_hash_map<StringRef, ValueT>\<close>. The
  table never erases, so its nodes are kept in the order of their allocation, and the
  address of a node's value is the node's position: it stays valid and fixed while nodes
  are added behind it. Each insert of the TBB table is atomic, so concurrent inserts act
  as some sequence of single inserts.
\<close>

type_synonym 'v ConcurrentMap = "(string \<times> 'v) list"

fun lookup_node :: "string \<Rightarrow> 'v ConcurrentMap \<Rightarrow> addr option" where
  "lookup_node k [] = None"
| "lookup_node k ((k', v) # m) =
     (if k = k' then Some 0 else map_option Suc (lookup_node k m))"

text \<open>
  \<open>insert(key, val)\<close>: \<open>map.insert(acc, std::make_pair(key, val))\<close> adds a node only if the
  key has none, copy-constructing the value (\<open>cp\<close> is the copy constructor of \<open>ValueT\<close>),
  and in both cases leaves the accessor on the key's node; the result is the address of
  that node's value.
\<close>

definition ConcurrentMap_insert ::
  "('v \<Rightarrow> 'v) \<Rightarrow> string \<Rightarrow> 'v \<Rightarrow> 'v ConcurrentMap \<Rightarrow> addr \<times> 'v ConcurrentMap" where
  "ConcurrentMap_insert cp key val m =
     (case lookup_node key m of
        Some p \<Rightarrow> (p, m)
      | None \<Rightarrow> (length m, m @ [(key, cp val)]))"

definition ConcurrentMap_size :: "'v ConcurrentMap \<Rightarrow> nat" where
  "ConcurrentMap_size m = length m"

text \<open>The value behind a pointer that \<open>insert\<close> returned.\<close>

definition value_at :: "'v ConcurrentMap \<Rightarrow> addr \<Rightarrow> 'v option" where
  "value_at m p = (if p < length m then Some (snd (m ! p)) else None)"

text \<open>
  \<open>Symbol::intern\<close>: \<open>map.insert(name, Symbol(name))\<close> on the function's static map, which is
  passed in and returned here.
\<close>

definition Symbol_intern :: "string \<Rightarrow> Symbol ConcurrentMap \<Rightarrow> addr \<times> Symbol ConcurrentMap" where
  "Symbol_intern n m = ConcurrentMap_insert Symbol_copy n (Symbol_ctor n None) m"

text \<open>
  A sequence of inserts, in the order in which the table serves them, with the pointer
  that each one returns.
\<close>

fun inserts ::
  "('v \<Rightarrow> 'v) \<Rightarrow> (string \<times> 'v) list \<Rightarrow> 'v ConcurrentMap \<Rightarrow> addr list \<times> 'v ConcurrentMap" where
  "inserts cp [] m = ([], m)"
| "inserts cp ((k, v) # ops) m =
     (case ConcurrentMap_insert cp k v m of (p, m') \<Rightarrow>
        (case inserts cp ops m' of (ps, m'') \<Rightarrow> (p # ps, m'')))"

text \<open>A sequence of \<open>Symbol::intern\<close> calls.\<close>

fun interns :: "string list \<Rightarrow> Symbol ConcurrentMap \<Rightarrow> addr list \<times> Symbol ConcurrentMap" where
  "interns [] m = ([], m)"
| "interns (n # ns) m =
     (case Symbol_intern n m of (p, m') \<Rightarrow>
        (case interns ns m' of (ps, m'') \<Rightarrow> (p # ps, m'')))"

section \<open>Input sections, section headers, output chunks\<close>

text \<open>
  \<open>ELF64LE::Shdr\<close> is LLVM's 64-bit little-endian section header; its members are the
  ones of the ELF format.
\<close>

record Shdr =
  sh_name :: u32
  sh_type :: u32
  sh_flags :: u64
  sh_addr :: u64
  sh_offset :: u64
  sh_size :: u64
  sh_link :: u32
  sh_info :: u32
  sh_addralign :: u64
  sh_entsize :: u64

text \<open>The value-initialised header \<open>ELF64LE::Shdr shdr = {}\<close>.\<close>

definition Shdr_zero :: Shdr where
  "Shdr_zero = \<lparr>sh_name = 0, sh_type = 0, sh_flags = 0, sh_addr = 0, sh_offset = 0,
     sh_size = 0, sh_link = 0, sh_info = 0, sh_addralign = 0, sh_entsize = 0\<rparr>"

definition SHT_PROGBITS :: u32 where "SHT_PROGBITS = 1"
definition SHT_STRTAB :: u32 where "SHT_STRTAB = 3"
definition SHF_ALLOC :: u64 where "SHF_ALLOC = 2"

text \<open>
  \<open>class InputSection\<close>. \<open>shdr\<close> holds the referenced input header; the relocation array
  \<open>rels\<close> is left out, no operation below reads it.
\<close>

record InputSection =
  "file" :: ptr
  output_section :: ptr
  shdr :: Shdr
  name :: string
  offset :: u32
  merged_section :: ptr
  pieces :: "StringPieceRef list"
  rel_pieces :: "StringPieceRef list"
  merged_offset :: u32
  merged_size :: u32

text \<open>\<open>class OutputChunk\<close>; its constructor sets \<open>sh_addralign\<close> to 1.\<close>

record OutputChunk =
  name :: string
  shndx :: int
  starts_new_ptload :: bool
  shdr :: Shdr
  sections :: "ptr list"

definition OutputChunk_ctor :: OutputChunk where
  "OutputChunk_ctor =
     \<lparr>name = [], shndx = 0, starts_new_ptload = False,
      shdr = Shdr_zero\<lparr>sh_addralign := 1\<rparr>, sections = []\<rparr>"

text \<open>\<open>class MergedSection\<close>: an output chunk with the table of its string pieces.\<close>

record MergedSection = OutputChunk +
  piece_map :: "StringPiece ConcurrentMap"

text \<open>
  The objects that \<open>get_addr\<close> reaches through pointers: one store per class, from
  addresses to the objects living there.
\<close>

record heap =
  string_pieces :: "addr \<rightharpoonup> StringPiece"
  input_sections :: "addr \<rightharpoonup> InputSection"
  output_sections :: "addr \<rightharpoonup> OutputChunk"
  merged_sections :: "addr \<rightharpoonup> MergedSection"

section \<open>Symbol::get\_addr and StringPiece::get\_addr\<close>

text \<open>
  \<open>StringPiece::get_addr\<close>: \<open>is->merged_section->shdr.sh_addr + is->merged_offset +
  output_offset\<close> in 64-bit arithmetic, the two 32-bit members zero-extended. Dereferencing
  a null or dangling pointer has no defined result: \<open>None\<close>.
\<close>

definition StringPiece_get_addr :: "heap \<Rightarrow> StringPiece \<Rightarrow> u64 option" where
  "StringPiece_get_addr h p =
     (case isec p of None \<Rightarrow> None | Some i \<Rightarrow>
      (case input_sections h i of None \<Rightarrow> None | Some is \<Rightarrow>
       (case merged_section is of None \<Rightarrow> None | Some m \<Rightarrow>
        (case merged_sections h m of None \<Rightarrow> None | Some ms \<Rightarrow>
           Some (sh_addr (shdr ms) + ucast (merged_offset is) + ucast (output_offset p))))))"

text \<open>\<open>Symbol::get_addr\<close>: the piece first, then the input section, then the raw value.\<close>

definition Symbol_get_addr :: "heap \<Rightarrow> Symbol \<Rightarrow> u64 option" where
  "Symbol_get_addr h s =
     (case piece (piece_ref s) of
        Some p \<Rightarrow>
          (case string_pieces h p of None \<Rightarrow> None | Some sp \<Rightarrow>
           (case StringPiece_get_addr h sp of None \<Rightarrow> None | Some a \<Rightarrow>
              Some (a + ucast (addend (piece_ref s)))))
      | None \<Rightarrow>
          (case input_section s of
             Some i \<Rightarrow>
               (case input_sections h i of None \<Rightarrow> None | Some is \<Rightarrow>
                (case output_section is of None \<Rightarrow> None | Some os \<Rightarrow>
                 (case output_sections h os of None \<Rightarrow> None | Some oc \<Rightarrow>
                    Some (sh_addr (shdr oc) + ucast (offset is) + value s))))
           | None \<Rightarrow> Some (value s)))"

section \<open>The output buffer\<close>

text \<open>
  The output image is a list of bytes and a \<open>u8 *\<close> into it is a position. A write that
  leaves the buffer has no defined result: \<open>None\<close>.
\<close>

type_synonym buffer = "u8 list"

definition bytes_of :: "string \<Rightarrow> u8 list" where
  "bytes_of s = map of_char s"

text \<open>\<open>memcpy(buf + pos, src, n)\<close> with \<open>n = length src\<close>.\<close>

definition memcpy :: "buffer \<Rightarrow> nat \<Rightarrow> u8 list \<Rightarrow> buffer option" where
  "memcpy buf pos src =
     (if pos + length src \<le> length buf
      then Some (take pos buf @ src @ drop (pos + length src) buf)
      else None)"

text \<open>
  The store \<open>*(u32 *)p = v\<close> on the little-endian x86-64 host: four byte stores, least
  significant byte first.
\<close>

definition le_bytes_u32 :: "u32 \<Rightarrow> u8 list" where
  "le_bytes_u32 v =
     [ucast v, ucast (drop_bit 8 v), ucast (drop_bit 16 v), ucast (drop_bit 24 v)]"

definition store_u32 :: "buffer \<Rightarrow> nat \<Rightarrow> u32 \<Rightarrow> buffer" where
  "store_u32 mem p v =
     mem[p := le_bytes_u32 v ! 0, p + 1 := le_bytes_u32 v ! 1,
         p + 2 := le_bytes_u32 v ! 2, p + 3 := le_bytes_u32 v ! 3]"

text \<open>Reading four bytes back as a little-endian 32-bit value.\<close>

definition le_u32 :: "u8 list \<Rightarrow> u32" where
  "le_u32 bs =
     ucast (bs ! 0) OR push_bit 8 (ucast (bs ! 1)) OR push_bit 16 (ucast (bs ! 2)) OR
     push_bit 24 (ucast (bs ! 3))"

section \<open>PltSection::write\_entry\<close>

text \<open>
  \<open>buf[0] = 0xff; buf[1] = 0x25; *(u32 *)(buf + 2) = value;\<close> where \<open>buf\<close> is the position
  of the slot in the buffer \<open>mem\<close>.
\<close>

definition write_entry :: "buffer \<Rightarrow> nat \<Rightarrow> u32 \<Rightarrow> buffer option" where
  "write_entry mem buf v =
     (if buf + 6 \<le> length mem
      then Some (store_u32 (mem[buf := 0xff, buf + 1 := 0x25]) (buf + 2) v)
      else None)"

section \<open>ShstrtabSection\<close>

text \<open>\<open>class ShstrtabSection : public OutputChunk\<close> with its private \<open>contents\<close>.\<close>

record ShstrtabSection = OutputChunk +
  contents :: string

definition NUL :: char where
  "NUL = CHR 0x00"

text \<open>
  The constructor: the base constructor runs first, then the name, the one-character
  contents, flags, type and size are assigned.
\<close>

definition ShstrtabSection_ctor :: ShstrtabSection where
  "ShstrtabSection_ctor =
     \<lparr>name = ''.shstrtab'', shndx = 0, starts_new_ptload = False,
      shdr = (shdr OutputChunk_ctor)\<lparr>sh_flags := 0, sh_type := SHT_STRTAB, sh_size := 1\<rparr>,
      sections = [], contents = [NUL]\<rparr>"

text \<open>
  \<open>add_string\<close>: remember the size, append the string, append a NUL, store the new size in
  the header, return the remembered size.
\<close>

definition add_string :: "string \<Rightarrow> ShstrtabSection \<Rightarrow> u64 \<times> ShstrtabSection" where
  "add_string s c =
     (let ret = of_nat (length (contents c));
          c1 = c\<lparr>contents := contents c @ s\<rparr>;
          c2 = c1\<lparr>contents := contents c1 @ [NUL]\<rparr>;
          c3 = c2\<lparr>shdr := (shdr c2)\<lparr>sh_size := of_nat (length (contents c2))\<rparr>\<rparr>
      in (ret, c3))"

text \<open>\<open>memcpy(buf + shdr.sh_offset, &contents[0], contents.size())\<close>.\<close>

definition ShstrtabSection_copy_to :: "ShstrtabSection \<Rightarrow> buffer \<Rightarrow> buffer option" where
  "ShstrtabSection_copy_to c buf =
     memcpy buf (unat (sh_offset (shdr c))) (bytes_of (contents c))"

text \<open>
  The layout loop calls \<open>add_string\<close> once per chunk name and keeps the returned offsets;
  here the calls are made in list order.
\<close>

fun add_strings :: "string list \<Rightarrow> ShstrtabSection \<Rightarrow> u64 list \<times> ShstrtabSection" where
  "add_strings [] c = ([], c)"
| "add_strings (s # ss) c =
     (case add_string s c of (r, c') \<Rightarrow>
        (case add_strings ss c' of (rs, c'') \<Rightarrow> (r # rs, c'')))"

section \<open>InterpSection\<close>

text \<open>
  \<open>static constexpr char path[]\<close>: the 27 characters and the terminating NUL, so
  \<open>sizeof(path)\<close> is the length of this list.
\<close>

definition path :: string where
  "path = ''/lib64/ld-linux-x86-64.so.2'' @ [NUL]"

definition InterpSection_ctor :: OutputChunk where
  "InterpSection_ctor =
     OutputChunk_ctor\<lparr>name := ''.interp'',
       shdr := (shdr OutputChunk_ctor)\<lparr>sh_flags := SHF_ALLOC, sh_type := SHT_PROGBITS,
                 sh_size := of_nat (length path)\<rparr>\<rparr>"

text \<open>\<open>memcpy(buf + shdr.sh_offset, path, sizeof(path))\<close>.\<close>

definition InterpSection_copy_to :: "OutputChunk \<Rightarrow> buffer \<Rightarrow> buffer option" where
  "InterpSection_copy_to c buf = memcpy buf (unat (sh_offset (shdr c))) (bytes_of path)"

section \<open>Configuration and error reporting\<close>

text \<open>\<open>struct Config\<close> with its default member initialisers.\<close>

record Config =
  "output" :: string
  print_map :: bool
  is_static :: bool

definition Config_default :: Config where
  "Config_default = \<lparr>output = [], print_map = False, is_static = False\<rparr>"







section \<open>The chunks of the output image\<close>

text \<open>
  Modelled from the spec: the kinds of output chunk of spec section 3; output sections
  and merged sections are numbered.
\<close>

datatype chunk_kind =
  K_ehdr | K_phdr | K_interp | K_got | K_gotplt | K_plt | K_relplt
  | K_shstrtab | K_symtab | K_strtab | K_output nat | K_merged nat | K_shdr

text \<open>
  Modelled from the spec: whether the output has a dynamic segment; the layout code that
  decides it is not in mold.h. The spec (section 6) has none in static mode.
\<close>

definition has_dynamic_segment :: "Config \<Rightarrow> bool" where
  "has_dynamic_segment cfg = (\<not> is_static cfg)"

text \<open>
  Modelled from the spec: the chunk list that the layout phase collects, which is built
  outside mold.h. The spec (sections 4.6 and 6) has the fixed headers first, then the
  synthetic chunks, the non-empty output sections and the non-empty merged sections, the
  section header table at the end, and \<open>.interp\<close> only with a dynamic segment.
\<close>

definition collect_chunks :: "Config \<Rightarrow> nat list \<Rightarrow> nat list \<Rightarrow> chunk_kind list" where
  "collect_chunks cfg osecs msecs =
     [K_ehdr, K_phdr] @ (if has_dynamic_segment cfg then [K_interp] else []) @
     [K_got, K_gotplt, K_plt, K_relplt, K_shstrtab, K_symtab, K_strtab] @
     map K_output osecs @ map K_merged msecs @ [K_shdr]"

section \<open>Symbol resolution\<close>

text \<open>
  mold.h declares \<open>ObjectFile::resolve_symbols\<close> and \<open>ObjectFile::maybe_override_symbol\<close>;
  their bodies are in object_file.cc.
\<close>

text \<open>
  Modelled from the spec: the kinds of an incoming symbol in the binding table of spec
  section 4.3 (the ELF symbol decoding is not in mold.h). A defined non-weak symbol says
  whether its section is in a COMDAT group that may be discarded; a common symbol has a
  size and an alignment.
\<close>

datatype incoming = In_strong bool | In_weak | In_common nat nat | In_undefined

text \<open>
  Modelled from the spec: what the binding pass reads of an object file (spec section 3).
  \<open>priority\<close> and \<open>is_alive\<close> are members of \<open>class ObjectFile\<close> in mold.h; \<open>globals\<close>
  stands for the ELF symbol table, which mold.h leaves to LLVM: the name and the kind of
  each global symbol of the file in symbol-index order.
\<close>

record ObjectFile =
  priority :: u32
  is_alive :: bool
  globals :: "(string \<times> incoming) list"

text \<open>
  Modelled from the spec: what is installed for a name, the column "Installed" of the
  binding table of spec section 4.3, which \<open>maybe_override_symbol\<close> (body not in mold.h)
  reads and writes. A definition carries the pointer to its file.
\<close>

datatype installed =
  Undefined | Placeholder | Weak addr | Strong addr bool | Common addr nat nat

fun file_of :: "installed \<Rightarrow> ptr" where
  "file_of Undefined = None"
| "file_of Placeholder = None"
| "file_of (Weak f) = Some f"
| "file_of (Strong f d) = Some f"
| "file_of (Common f sz al) = Some f"

text \<open>
  Modelled from the spec: the multiple-definition conflict of spec section 7, the one
  error of the binding table.
\<close>

datatype link_error = Multiple_definition

text \<open>
  Modelled from the spec: the binding rule \<open>ObjectFile::maybe_override_symbol\<close>, whose body
  is not in mold.h, row by row from the table of spec section 4.3. \<open>this\<close> is the file that
  brings the incoming symbol. Two non-weak definitions keep the installed one and are an
  error (fatal, as every error) if neither is COMDAT-discardable. The table has no row for
  the remaining pairs; \<open>other\<close> stands for whatever the rule does there.
\<close>

fun maybe_override_symbol ::
  "(addr \<Rightarrow> incoming \<Rightarrow> installed \<Rightarrow> link_error + installed) \<Rightarrow>
   addr \<Rightarrow> incoming \<Rightarrow> installed \<Rightarrow> link_error + installed" where
  "maybe_override_symbol other this (In_strong d) Undefined = Inr (Strong this d)"
| "maybe_override_symbol other this (In_strong d) (Weak f) = Inr (Strong this d)"
| "maybe_override_symbol other this (In_strong d) Placeholder = Inr (Strong this d)"
| "maybe_override_symbol other this (In_strong d) (Strong f d') =
     (if \<not> d \<and> \<not> d' then Inl Multiple_definition else Inr (Strong f d'))"
| "maybe_override_symbol other this In_weak Undefined = Inr (Weak this)"
| "maybe_override_symbol other this In_weak Placeholder = Inr (Weak this)"
| "maybe_override_symbol other this In_weak (Weak f) = Inr (Weak f)"
| "maybe_override_symbol other this In_weak (Strong f d') = Inr (Strong f d')"
| "maybe_override_symbol other this (In_common sz al) Undefined = Inr (Common this sz al)"
| "maybe_override_symbol other this (In_common sz al) (Common f sz' al') =
     Inr (Common f (max sz sz') (max al al'))"
| "maybe_override_symbol other this In_undefined inst = Inr inst"
| "maybe_override_symbol other this inc inst = other this inc inst"

text \<open>
  Modelled from the spec: pass B of spec section 4.3 for one file
  (\<open>ObjectFile::resolve_symbols\<close>, body not in mold.h): the binding rule is called for each
  global symbol of the file against what is installed for its name.
\<close>

fun resolve_symbols ::
  "(addr \<Rightarrow> incoming \<Rightarrow> installed \<Rightarrow> link_error + installed) \<Rightarrow>
   addr \<Rightarrow> (string \<times> incoming) list \<Rightarrow> (string \<Rightarrow> installed) \<Rightarrow>
   link_error + (string \<Rightarrow> installed)" where
  "resolve_symbols other this [] t = Inr t"
| "resolve_symbols other this ((n, inc) # gs) t =
     (case maybe_override_symbol other this inc (t n) of
        Inl e \<Rightarrow> Inl e
      | Inr i \<Rightarrow> resolve_symbols other this gs (t(n := i)))"

text \<open>
  Modelled from the spec: pass B over all files (the driver loop is not in mold.h). Only
  live files take part, and the observable order over files is the command-line order
  (spec section 5), which is the order of the list; a file's pointer is its position,
  \<open>this\<close> being the position of the first file of the list.
\<close>

fun resolve_files ::
  "(addr \<Rightarrow> incoming \<Rightarrow> installed \<Rightarrow> link_error + installed) \<Rightarrow>
   addr \<Rightarrow> ObjectFile list \<Rightarrow> (string \<Rightarrow> installed) \<Rightarrow>
   link_error + (string \<Rightarrow> installed)" where
  "resolve_files other this [] t = Inr t"
| "resolve_files other this (f # fs) t =
     (if is_alive f
      then (case resolve_symbols other this (globals f) t of
              Inl e \<Rightarrow> Inl e
            | Inr t' \<Rightarrow> resolve_files other (Suc this) fs t')
      else resolve_files other (Suc this) fs t)"

text \<open>
  Modelled from the spec: before the pass every name is a placeholder, interned with no
  definition bound to it (spec glossary).
\<close>

definition initial_symbols :: "string \<Rightarrow> installed" where
  "initial_symbols = (\<lambda>n. Placeholder)"

text \<open>A file defines \<open>s\<close> non-weak, and a file has a common symbol \<open>s\<close>.\<close>

definition defines_strong :: "string \<Rightarrow> ObjectFile \<Rightarrow> bool" where
  "defines_strong s f =
     ((s, In_strong True) \<in> set (globals f) \<or> (s, In_strong False) \<in> set (globals f))"

fun is_common :: "incoming \<Rightarrow> bool" where
  "is_common (In_common sz al) = True"
| "is_common inc = False"

definition has_common :: "string \<Rightarrow> ObjectFile \<Rightarrow> bool" where
  "has_common s f = list_ex (\<lambda>g. fst g = s \<and> is_common (snd g)) (globals f)"

text \<open>
  Two states of a name during the pass: nothing stronger than a weak definition is
  installed, and a non-weak definition of file \<open>a\<close> is installed.
\<close>

fun unbound :: "installed \<Rightarrow> bool" where
  "unbound (Strong f d) = False"
| "unbound (Common f sz al) = False"
| "unbound i = True"

fun owned_by :: "addr \<Rightarrow> installed \<Rightarrow> bool" where
  "owned_by a (Strong f d) = (f = a)"
| "owned_by a i = False"

fun is_strong :: "incoming \<Rightarrow> bool" where
  "is_strong (In_strong d) = True"
| "is_strong inc = False"

section \<open>Offsets of merged string pieces\<close>

text \<open>
  mold.h declares \<open>ObjectFile::assign_mergeable_string_offsets\<close>; the body and the layout
  pass are in other files.
\<close>






section \<open>Example states\<close>

text \<open>A merged section with no pieces yet.\<close>

definition ex_merged :: MergedSection where
  "ex_merged =
     \<lparr>name = ''.rodata.str1.1'', shndx = 0, starts_new_ptload = False,
      shdr = shdr OutputChunk_ctor, sections = [], piece_map = []\<rparr>"

text \<open>
  A heap after layout: one merged section at 0x402000, one output section at 0x401000,
  one input section placed at offset 0x40 whose merged span starts at 0x10, and the
  string piece \<open>hello\<close> at output offset 6.
\<close>

definition ex_isec :: InputSection where
  "ex_isec =
     \<lparr>file = Some 0, output_section = Some 0, shdr = Shdr_zero, name = ''.rodata.str1.1'',
      offset = 0x40, merged_section = Some 0, pieces = [], rel_pieces = [],
      merged_offset = 0x10, merged_size = 0\<rparr>"

definition ex_heap :: heap where
  "ex_heap =
     \<lparr>string_pieces = [0 \<mapsto> (StringPiece_ctor ''hello'' (Some 0))\<lparr>output_offset := 6\<rparr>],
      input_sections = [0 \<mapsto> ex_isec],
      output_sections = [0 \<mapsto> OutputChunk_ctor\<lparr>shdr := Shdr_zero\<lparr>sh_addr := 0x401000\<rparr>\<rparr>],
      merged_sections = [0 \<mapsto> ex_merged\<lparr>shdr := Shdr_zero\<lparr>sh_addr := 0x402000\<rparr>\<rparr>]\<rparr>"

text \<open>Three symbols: one resolved to the piece, one to the input section, one absolute.\<close>

definition ex_sym_piece :: Symbol where
  "ex_sym_piece =
     (Symbol_ctor ''str'' (Some 0))
       \<lparr>input_section := Some 0,
        piece_ref := \<lparr>piece = Some 0, input_offset = 0, addend = 3\<rparr>, value := 8\<rparr>"

definition ex_sym_section :: Symbol where
  "ex_sym_section = (Symbol_ctor ''fn'' (Some 0))\<lparr>input_section := Some 0, value := 8\<rparr>"

definition ex_sym_abs :: Symbol where
  "ex_sym_abs = (Symbol_ctor ''abs'' (Some 0))\<lparr>value := 8\<rparr>"

text \<open>
  The name table after the names \<open>.text\<close> and \<open>.bss\<close> were added to a fresh one, and the
  16-byte image, filled with 0xaa before, after the table was copied to offset 2.
\<close>

definition ex_shstrtab :: ShstrtabSection where
  "ex_shstrtab = snd (add_strings [''.text'', ''.bss''] ShstrtabSection_ctor)"

definition ex_blank :: buffer where
  "ex_blank =
     [0xaa, 0xaa, 0xaa, 0xaa, 0xaa, 0xaa, 0xaa, 0xaa,
      0xaa, 0xaa, 0xaa, 0xaa, 0xaa, 0xaa, 0xaa, 0xaa]"

definition ex_image :: buffer where
  "ex_image =
     [0xaa, 0xaa] @ bytes_of ([NUL] @ ''.text'' @ [NUL] @ ''.bss'' @ [NUL]) @ [0xaa, 0xaa]"

text \<open>An interpreter chunk laid out at file offset 2, and a 32-byte image of 0xaa.\<close>

definition ex_interp :: OutputChunk where
  "ex_interp = InterpSection_ctor\<lparr>shdr := (shdr InterpSection_ctor)\<lparr>sh_offset := 2\<rparr>\<rparr>"

definition ex_blank32 :: buffer where
  "ex_blank32 = ex_blank @ ex_blank"

text \<open>The symbol table after \<open>main\<close>, \<open>puts\<close> and \<open>main\<close> again were interned.\<close>

definition ex_symbols :: "Symbol ConcurrentMap" where
  "ex_symbols = [(''main'', Symbol_ctor ''main'' None), (''puts'', Symbol_ctor ''puts'' None)]"

text \<open>The piece table after \<open>hello\<close> was inserted into the empty one.\<close>

definition ex_pieces :: "StringPiece ConcurrentMap" where
  "ex_pieces = [(''hello'', StringPiece_ctor ''hello'' (Some 0))]"

text \<open>
  Three files in command-line order: a live object with a weak \<open>f\<close>, then two live
  objects that both define \<open>f\<close> non-weak, the second one in a discardable COMDAT group.
\<close>

definition ex_files :: "ObjectFile list" where
  "ex_files =
     [\<lparr>priority = 1, is_alive = True, globals = [(''f'', In_weak), (''g'', In_undefined)]\<rparr>,
      \<lparr>priority = 2, is_alive = True, globals = [(''f'', In_strong False)]\<rparr>,
      \<lparr>priority = 3, is_alive = True, globals = [(''g'', In_weak), (''f'', In_strong True)]\<rparr>]"

text \<open>A completion of the binding table that keeps what is installed.\<close>

definition ex_other :: "addr \<Rightarrow> incoming \<Rightarrow> installed \<Rightarrow> link_error + installed" where
  "ex_other x inc inst = Inr inst"

definition ex_resolved :: "string \<Rightarrow> installed" where
  "ex_resolved = initial_symbols(''f'' := Strong 1 False, ''g'' := Weak 2)"






section \<open>Facts about the buffer operations\<close>

lemma le_u32_le_bytes_u32: "le_u32 (le_bytes_u32 v) = v"
proof (rule bit_word_eqI)
  fix n assume n: "n < LENGTH(32)"
  consider "n < 8" | "8 \<le> n" "n < 16" | "16 \<le> n" "n < 24" | "24 \<le> n"
    by linarith
  then show "bit (le_u32 (le_bytes_u32 v)) n = bit v n"
  proof cases
    case 1
    then show ?thesis by (auto simp: le_u32_def le_bytes_u32_def bit_simps)
  next
    case 2
    then show ?thesis by (auto simp: le_u32_def le_bytes_u32_def bit_simps)
  next
    case 3
    then show ?thesis by (auto simp: le_u32_def le_bytes_u32_def bit_simps)
  next
    case 4
    then show ?thesis using n by (auto simp: le_u32_def le_bytes_u32_def bit_simps)
  qed
qed

lemma length_store_u32: "length (store_u32 mem p v) = length mem"
  by (simp add: store_u32_def)

lemma write_entry_slot:
  assumes "buf + 6 \<le> length mem"
  shows "take 6 (drop buf (store_u32 (mem[buf := 0xff, buf + 1 := 0x25]) (buf + 2) v)) =
           [0xff, 0x25] @ le_bytes_u32 v"
  using assms
  by (simp add: list_eq_iff_nth_eq store_u32_def le_bytes_u32_def nth_list_update
        less_Suc_eq numeral_eq_Suc all_conj_distrib)

lemma write_entry_frame:
  "i < buf \<or> buf + 6 \<le> i \<Longrightarrow>
     store_u32 (mem[buf := 0xff, buf + 1 := 0x25]) (buf + 2) v ! i = mem ! i"
  by (auto simp: store_u32_def)

lemma memcpy_Some:
  assumes "pos + length src \<le> length buf"
  shows "memcpy buf pos src = Some (take pos buf @ src @ drop (pos + length src) buf)"
  using assms by (simp add: memcpy_def)

lemma memcpy_length: "memcpy buf pos src = Some buf' \<Longrightarrow> length buf' = length buf"
  by (auto simp: memcpy_def split: if_splits)

lemma memcpy_slice:
  assumes "memcpy buf pos src = Some buf'"
  shows "take (length src) (drop pos buf') = src"
  using assms by (auto simp: memcpy_def split: if_splits)

lemma memcpy_frame:
  assumes "memcpy buf pos src = Some buf'" and "i < pos \<or> pos + length src \<le> i" and "i < length buf"
  shows "buf' ! i = buf ! i"
proof -
  from assms(1) have le: "pos + length src \<le> length buf"
    and eq: "buf' = take pos buf @ src @ drop (pos + length src) buf"
    by (auto simp: memcpy_def split: if_splits)
  from assms(2) show ?thesis
  proof
    assume "i < pos"
    with le show ?thesis by (simp add: eq nth_append)
  next
    assume ge: "pos + length src \<le> i"
    with le have "buf' ! i = (src @ drop (pos + length src) buf) ! (i - pos)"
      by (simp add: eq nth_append)
    also have "\<dots> = drop (pos + length src) buf ! (i - pos - length src)"
    proof -
      from ge have "\<not> i - pos < length src" by linarith
      then show ?thesis by (simp add: nth_append)
    qed
    also from ge le assms(3) have "\<dots> = buf ! i"
      by simp
    finally show ?thesis .
  qed
qed

text \<open>A part of the copied bytes is found at its offset from the copy's start.\<close>

lemma memcpy_sub_slice:
  assumes "memcpy buf pos (pre @ mid @ post) = Some buf'"
  shows "take (length mid) (drop (pos + length pre) buf') = mid"
proof -
  have "take (length (pre @ mid @ post)) (drop pos buf') = pre @ mid @ post"
    using assms by (rule memcpy_slice)
  then have "drop (length pre) (take (length (pre @ mid @ post)) (drop pos buf')) = mid @ post"
    by simp
  then have "take (length mid + length post) (drop (pos + length pre) buf') = mid @ post"
    by (simp add: drop_take add.commute)
  then have "take (length mid) (take (length mid + length post) (drop (pos + length pre) buf')) = mid"
    by simp
  then show ?thesis by (simp add: min_def)
qed

section \<open>Facts about the section name table\<close>

lemma bytes_of_append: "bytes_of (s @ t) = bytes_of s @ bytes_of t"
  by (simp add: bytes_of_def)

lemma bytes_of_NUL: "bytes_of [NUL] = [0]"
  by (simp add: bytes_of_def NUL_def)

lemma length_bytes_of: "length (bytes_of s) = length s"
  by (simp add: bytes_of_def)

lemma add_string_result:
  assumes "add_string s c = (r, c')"
  shows "r = of_nat (length (contents c))"
    and "contents c' = contents c @ s @ [NUL]"
    and "sh_size (shdr c') = of_nat (length (contents c'))"
  using assms by (auto simp: add_string_def Let_def)

text \<open>
  After a run of \<open>add_string\<close> calls every name sits in the contents, followed by a NUL,
  at the offset that its call returned.
\<close>

lemma add_strings_layout:
  assumes "add_strings ss c = (rs, c')"
  shows "length rs = length ss \<and>
         (\<exists>ext. contents c' = contents c @ ext) \<and>
         (\<forall>i<length ss. \<exists>pre post.
            contents c' = pre @ (ss ! i @ [NUL]) @ post \<and> rs ! i = of_nat (length pre))"
  using assms
proof (induction ss arbitrary: c rs c')
  case Nil
  then show ?case by simp
next
  case (Cons s ss)
  obtain r c1 where step: "add_string s c = (r, c1)"
    by (cases "add_string s c")
  obtain rs1 c2 where rest: "add_strings ss c1 = (rs1, c2)"
    by (cases "add_strings ss c1")
  from Cons.prems step rest have rs: "rs = r # rs1" and c': "c' = c2"
    by simp_all
  from Cons.IH [OF rest] obtain ext where
    len: "length rs1 = length ss" and ext: "contents c2 = contents c1 @ ext" and
    at: "\<forall>i<length ss. \<exists>pre post.
            contents c2 = pre @ (ss ! i @ [NUL]) @ post \<and> rs1 ! i = of_nat (length pre)"
    by blast
  have c1: "contents c1 = contents c @ s @ [NUL]" and r: "r = of_nat (length (contents c))"
    using add_string_result [OF step] by simp_all
  have "\<exists>pre post. contents c' = pre @ ((s # ss) ! i @ [NUL]) @ post \<and>
          rs ! i = of_nat (length pre)" if i: "i < length (s # ss)" for i
  proof (cases i)
    case 0
    have "contents c' = contents c @ (s @ [NUL]) @ ext"
      by (simp add: c' ext c1)
    with 0 r rs show ?thesis by auto
  next
    case (Suc j)
    with i have "j < length ss" by simp
    with at obtain pre post where
      "contents c2 = pre @ (ss ! j @ [NUL]) @ post" and "rs1 ! j = of_nat (length pre)"
      by blast
    with Suc rs c' show ?thesis by auto
  qed
  moreover have "\<exists>ext'. contents c' = contents c @ ext'"
    by (simp add: c' ext c1)
  ultimately show ?case using len rs by simp
qed

lemma add_strings_sh_size:
  assumes "add_strings ss c = (rs, c')"
    and "sh_size (shdr c) = of_nat (length (contents c))"
  shows "sh_size (shdr c') = of_nat (length (contents c'))"
  using assms
proof (induction ss arbitrary: c rs c')
  case Nil
  then show ?case by simp
next
  case (Cons s ss)
  obtain r c1 where step: "add_string s c = (r, c1)"
    by (cases "add_string s c")
  obtain rs1 c2 where rest: "add_strings ss c1 = (rs1, c2)"
    by (cases "add_strings ss c1")
  from Cons.prems(1) step rest have "c' = c2" by simp
  moreover have "sh_size (shdr c2) = of_nat (length (contents c2))"
    using rest add_string_result(3) [OF step] by (rule Cons.IH)
  ultimately show ?case by simp
qed

lemma unat_of_nat_u64: "n < 2 ^ 64 \<Longrightarrow> unat (of_nat n :: u64) = n"
  by (simp add: unsigned_of_nat take_bit_nat_eq_self)

section \<open>Facts about the interning table\<close>

lemma lookup_node_Some:
  "lookup_node k m = Some p \<Longrightarrow> p < length m \<and> fst (m ! p) = k"
proof (induction m arbitrary: p)
  case Nil
  then show ?case by simp
next
  case (Cons a m)
  obtain k' v where a: "a = (k', v)" by (cases a)
  show ?case
  proof (cases "k = k'")
    case True
    with Cons.prems a show ?thesis by simp
  next
    case False
    with Cons.prems a obtain q where "lookup_node k m = Some q" and "p = Suc q"
      by auto
    with Cons.IH show ?thesis by simp
  qed
qed

lemma lookup_node_None: "lookup_node k m = None \<longleftrightarrow> k \<notin> fst ` set m"
  by (induction m) (auto split: if_splits)

lemma lookup_node_append:
  "lookup_node k (m @ m2) =
     (case lookup_node k m of
        Some p \<Rightarrow> Some p
      | None \<Rightarrow> map_option (\<lambda>q. length m + q) (lookup_node k m2))"
proof (induction m)
  case Nil
  show ?case by (cases "lookup_node k m2") simp_all
next
  case (Cons a m)
  obtain k' v where a: "a = (k', v)" by (cases a)
  show ?case
    by (cases "lookup_node k m"; cases "lookup_node k m2") (simp_all add: a Cons.IH)
qed

lemma lookup_node_stable:
  "lookup_node k m = Some p \<Longrightarrow> lookup_node k (m @ ext) = Some p"
  by (simp add: lookup_node_append)

lemma lookup_node_distinct:
  assumes "distinct (map fst m)" and "p < length m" and "fst (m ! p) = k"
  shows "lookup_node k m = Some p"
proof -
  have "k \<in> fst ` set m"
    using assms(2,3) by (metis image_eqI nth_mem)
  then obtain q where q: "lookup_node k m = Some q"
    by (cases "lookup_node k m") (simp_all add: lookup_node_None)
  then have "q < length m" and "fst (m ! q) = k"
    using lookup_node_Some by blast+
  with assms have "map fst m ! q = map fst m ! p" and "q < length (map fst m)"
    and "p < length (map fst m)"
    by simp_all
  with assms(1) have "q = p"
    using nth_eq_iff_index_eq by blast
  with q show ?thesis by simp
qed

text \<open>One insert: where the pointer goes and what happens to the table.\<close>

lemma ConcurrentMap_insert_new:
  "lookup_node key m = None \<Longrightarrow>
     ConcurrentMap_insert cp key val m = (length m, m @ [(key, cp val)])"
  by (simp add: ConcurrentMap_insert_def)

lemma ConcurrentMap_insert_old:
  "lookup_node key m = Some p \<Longrightarrow> ConcurrentMap_insert cp key val m = (p, m)"
  by (simp add: ConcurrentMap_insert_def)

lemma ConcurrentMap_insert_lookup:
  assumes "ConcurrentMap_insert cp key val m = (p, m')"
  shows "lookup_node key m' = Some p"
proof (cases "lookup_node key m")
  case None
  with assms have "p = length m" and "m' = m @ [(key, cp val)]"
    by (simp_all add: ConcurrentMap_insert_def)
  with None show ?thesis by (simp add: lookup_node_append)
next
  case (Some q)
  with assms show ?thesis by (simp add: ConcurrentMap_insert_def)
qed

lemma ConcurrentMap_insert_extends:
  assumes "ConcurrentMap_insert cp key val m = (p, m')"
  shows "\<exists>ext. m' = m @ ext"
  using assms by (cases "lookup_node key m") (auto simp: ConcurrentMap_insert_def)

lemma ConcurrentMap_insert_keys:
  assumes "ConcurrentMap_insert cp key val m = (p, m')"
  shows "fst ` set m' = insert key (fst ` set m)"
proof (cases "lookup_node key m")
  case None
  with assms show ?thesis by (auto simp: ConcurrentMap_insert_def)
next
  case (Some q)
  then have "key \<in> fst ` set m"
    using lookup_node_None [of key m] by simp
  with Some assms show ?thesis by (auto simp: ConcurrentMap_insert_def)
qed

lemma ConcurrentMap_insert_distinct:
  assumes "ConcurrentMap_insert cp key val m = (p, m')" and "distinct (map fst m)"
  shows "distinct (map fst m')"
proof (cases "lookup_node key m")
  case None
  then have "key \<notin> fst ` set m" by (simp add: lookup_node_None)
  with None assms show ?thesis by (auto simp: ConcurrentMap_insert_def)
next
  case (Some q)
  with assms show ?thesis by (simp add: ConcurrentMap_insert_def)
qed

text \<open>
  A sequence of inserts starting from any table: the table only grows at its end, every
  insert's pointer is the node of its key in the final table, and a key that the table
  did not have gets the copy of the value of the first insert that names it.
\<close>

lemma inserts_run:
  "inserts cp ops m = (ps, m') \<Longrightarrow>
     length ps = length ops \<and>
     (\<exists>ext. m' = m @ ext) \<and>
     (\<forall>i<length ops. lookup_node (fst (ops ! i)) m' = Some (ps ! i)) \<and>
     fst ` set m' = fst ` set m \<union> fst ` set ops \<and>
     (distinct (map fst m) \<longrightarrow> distinct (map fst m')) \<and>
     (\<forall>i<length ops.
        lookup_node (fst (ops ! i)) m = None \<and> (\<forall>j<i. fst (ops ! j) \<noteq> fst (ops ! i)) \<longrightarrow>
        m' ! (ps ! i) = (fst (ops ! i), cp (snd (ops ! i)))) \<and>
     (\<forall>q<length m'. length m \<le> q \<longrightarrow>
        (\<exists>i<length ops. m' ! q = (fst (ops ! i), cp (snd (ops ! i)))))"
proof (induction ops arbitrary: m ps m')
  case Nil
  then show ?case by simp
next
  case (Cons a rest)
  obtain k v where a: "a = (k, v)" by (cases a)
  obtain p m1 where step: "ConcurrentMap_insert cp k v m = (p, m1)"
    by (cases "ConcurrentMap_insert cp k v m")
  obtain ps1 m2 where run: "inserts cp rest m1 = (ps1, m2)"
    by (cases "inserts cp rest m1")
  from Cons.prems a step run have ps: "ps = p # ps1" and m': "m' = m2"
    by simp_all
  from Cons.IH [OF run] have
    len1: "length ps1 = length rest" and
    ext1: "\<exists>ext. m2 = m1 @ ext" and
    look1: "\<forall>i<length rest. lookup_node (fst (rest ! i)) m2 = Some (ps1 ! i)" and
    keys1: "fst ` set m2 = fst ` set m1 \<union> fst ` set rest" and
    dist1: "distinct (map fst m1) \<longrightarrow> distinct (map fst m2)" and
    val1: "\<forall>i<length rest.
        lookup_node (fst (rest ! i)) m1 = None \<and> (\<forall>j<i. fst (rest ! j) \<noteq> fst (rest ! i)) \<longrightarrow>
        m2 ! (ps1 ! i) = (fst (rest ! i), cp (snd (rest ! i)))" and
    new1: "\<forall>q<length m2. length m1 \<le> q \<longrightarrow>
        (\<exists>i<length rest. m2 ! q = (fst (rest ! i), cp (snd (rest ! i))))"
    by blast+
  from ext1 obtain e2 where e2: "m2 = m1 @ e2" by blast
  from ConcurrentMap_insert_extends [OF step] obtain e1 where e1: "m1 = m @ e1" by blast
  have keys_m1: "fst ` set m1 = insert k (fst ` set m)"
    using step by (rule ConcurrentMap_insert_keys)
  have look_k: "lookup_node k m2 = Some p"
    unfolding e2 using ConcurrentMap_insert_lookup [OF step] by (rule lookup_node_stable)
  have c1: "length ps = length (a # rest)"
    by (simp add: ps len1)
  have c2: "\<exists>ext. m' = m @ ext"
    by (simp add: m' e2 e1)
  have c3: "\<forall>i<length (a # rest). lookup_node (fst ((a # rest) ! i)) m' = Some (ps ! i)"
  proof (intro allI impI)
    fix i assume "i < length (a # rest)"
    then show "lookup_node (fst ((a # rest) ! i)) m' = Some (ps ! i)"
      using look_k look1 by (cases i) (simp_all add: a ps m')
  qed
  have c4: "fst ` set m' = fst ` set m \<union> fst ` set (a # rest)"
    by (simp add: m' keys1 keys_m1 a)
  have c5: "distinct (map fst m) \<longrightarrow> distinct (map fst m')"
    using ConcurrentMap_insert_distinct [OF step] dist1 by (simp add: m')
  have c6: "\<forall>i<length (a # rest).
        lookup_node (fst ((a # rest) ! i)) m = None \<and>
        (\<forall>j<i. fst ((a # rest) ! j) \<noteq> fst ((a # rest) ! i)) \<longrightarrow>
        m' ! (ps ! i) = (fst ((a # rest) ! i), cp (snd ((a # rest) ! i)))"
  proof (intro allI impI)
    fix i
    assume i: "i < length (a # rest)"
      and first: "lookup_node (fst ((a # rest) ! i)) m = None \<and>
        (\<forall>j<i. fst ((a # rest) ! j) \<noteq> fst ((a # rest) ! i))"
    show "m' ! (ps ! i) = (fst ((a # rest) ! i), cp (snd ((a # rest) ! i)))"
    proof (cases i)
      case 0
      with first a have "lookup_node k m = None" by simp
      with step have "p = length m" and "m1 = m @ [(k, cp v)]"
        by (simp_all add: ConcurrentMap_insert_new)
      then have "m2 ! p = (k, cp v)"
        by (simp add: e2 nth_append)
      with 0 show ?thesis by (simp add: a ps m')
    next
      case (Suc j)
      with i have j: "j < length rest" by simp
      from first Suc have notin: "fst (rest ! j) \<notin> fst ` set m"
        by (simp add: lookup_node_None)
      from first Suc have "fst ((a # rest) ! 0) \<noteq> fst (rest ! j)"
        by auto
      then have "fst (rest ! j) \<noteq> k" by (auto simp: a)
      with notin have "lookup_node (fst (rest ! j)) m1 = None"
        by (simp add: lookup_node_None keys_m1)
      moreover have "\<forall>l<j. fst (rest ! l) \<noteq> fst (rest ! j)"
      proof (intro allI impI)
        fix l assume "l < j"
        then have "Suc l < i" by (simp add: Suc)
        with first have "fst ((a # rest) ! Suc l) \<noteq> fst ((a # rest) ! i)" by blast
        then show "fst (rest ! l) \<noteq> fst (rest ! j)" by (simp add: Suc)
      qed
      ultimately have "m2 ! (ps1 ! j) = (fst (rest ! j), cp (snd (rest ! j)))"
        using val1 j by blast
      then show ?thesis by (simp add: Suc ps m')
    qed
  qed
  have c7: "\<forall>q<length m'. length m \<le> q \<longrightarrow>
        (\<exists>i<length (a # rest). m' ! q = (fst ((a # rest) ! i), cp (snd ((a # rest) ! i))))"
  proof (intro allI impI)
    fix q assume q: "q < length m'" and ge: "length m \<le> q"
    show "\<exists>i<length (a # rest). m' ! q = (fst ((a # rest) ! i), cp (snd ((a # rest) ! i)))"
    proof (cases "q < length m1")
      case True
      with ge have grown: "m1 \<noteq> m" by auto
      have "m1 = m @ [(k, cp v)]"
      proof (cases "lookup_node k m")
        case None
        with step show ?thesis by (simp add: ConcurrentMap_insert_new)
      next
        case (Some r)
        with step grown show ?thesis by (simp add: ConcurrentMap_insert_old)
      qed
      moreover from this True ge have "q = length m"
        by simp
      ultimately have "m1 ! q = (k, cp v)"
        by simp
      with True have "m' ! q = (fst ((a # rest) ! 0), cp (snd ((a # rest) ! 0)))"
        by (simp add: m' e2 nth_append a)
      then show ?thesis by blast
    next
      case False
      with q new1 obtain i where "i < length rest"
        and "m2 ! q = (fst (rest ! i), cp (snd (rest ! i)))"
        by (auto simp: m')
      then have "Suc i < length (a # rest)"
        and "m' ! q = (fst ((a # rest) ! Suc i), cp (snd ((a # rest) ! Suc i)))"
        by (simp_all add: m')
      then show ?thesis by blast
    qed
  qed
  from c1 c2 c3 c4 c5 c6 c7 show ?case by blast
qed

lemma interns_inserts:
  "interns ns m = inserts Symbol_copy (map (\<lambda>n. (n, Symbol_ctor n None)) ns) m"
  by (induction ns arbitrary: m) (simp_all add: Symbol_intern_def)

lemma Symbol_copy_fresh: "Symbol_copy (Symbol_ctor n f) = Symbol_ctor n f"
  by (simp add: Symbol_copy_def Symbol_ctor_def)

lemma StringPiece_copy_id: "StringPiece_copy sp = sp"
  by (simp add: StringPiece_copy_def)

lemma lookup_node_keys:
  "map fst m = map fst m2 \<Longrightarrow> lookup_node k m = lookup_node k m2"
proof (induction m arbitrary: m2)
  case Nil
  then show ?case by simp
next
  case (Cons a m)
  from Cons.prems obtain b m3 where m2: "m2 = b # m3" and ab: "fst a = fst b"
    and rest: "map fst m = map fst m3"
    by (cases m2) auto
  obtain ka va where a: "a = (ka, va)" by (cases a)
  obtain kb vb where b: "b = (kb, vb)" by (cases b)
  from Cons.IH [OF rest] ab show ?case
    by (simp add: m2 a b)
qed

text \<open>From the empty table: the consequences of \<open>inserts_run\<close> used below.\<close>

lemma inserts_from_empty:
  assumes "inserts cp ops [] = (ps, m')"
  shows "length ps = length ops"
    and "distinct (map fst m')"
    and "fst ` set m' = fst ` set ops"
    and "\<And>i. i < length ops \<Longrightarrow> lookup_node (fst (ops ! i)) m' = Some (ps ! i)"
    and "\<And>i. i < length ops \<Longrightarrow> \<forall>j<i. fst (ops ! j) \<noteq> fst (ops ! i) \<Longrightarrow>
           m' ! (ps ! i) = (fst (ops ! i), cp (snd (ops ! i)))"
    and "\<And>q. q < length m' \<Longrightarrow> \<exists>i<length ops. m' ! q = (fst (ops ! i), cp (snd (ops ! i)))"
  using inserts_run [OF assms] by simp_all

section \<open>Facts about the binding pass\<close>

lemma bind_unbound:
  assumes "unbound i" and "\<not> is_strong inc" and "\<not> is_common inc"
    and "maybe_override_symbol other x inc i = Inr i'"
  shows "unbound i'"
  using assms by (cases inc; cases i) auto

lemma bind_strong:
  assumes "unbound i \<or> owned_by a i" and "is_strong inc"
    and "maybe_override_symbol other a inc i = Inr i'"
  shows "owned_by a i'"
  using assms by (cases inc; cases i) (auto split: if_splits)

lemma bind_owned:
  assumes "owned_by a i" and "\<not> is_common inc"
    and "maybe_override_symbol other x inc i = Inr i'"
  shows "owned_by a i'"
  using assms by (cases inc; cases i) (auto split: if_splits)

lemma bind_same_file:
  assumes "unbound i \<or> owned_by a i" and "\<not> is_common inc"
    and "maybe_override_symbol other a inc i = Inr i'"
  shows "unbound i' \<or> owned_by a i'"
  using assms by (cases inc; cases i) (auto split: if_splits)

text \<open>One file's symbols, seen from the name \<open>s\<close>.\<close>

lemma resolve_symbols_unbound:
  assumes "resolve_symbols other x gs t = Inr t'" and "unbound (t s)"
    and "\<forall>g\<in>set gs. fst g = s \<longrightarrow> \<not> is_strong (snd g) \<and> \<not> is_common (snd g)"
  shows "unbound (t' s)"
  using assms
proof (induction gs arbitrary: t)
  case Nil
  then show ?case by simp
next
  case (Cons g gs)
  obtain n inc where g: "g = (n, inc)" by (cases g)
  from Cons.prems(1) g obtain i where
    step: "maybe_override_symbol other x inc (t n) = Inr i" and
    rest: "resolve_symbols other x gs (t(n := i)) = Inr t'"
    by (auto split: sum.splits)
  have "unbound ((t(n := i)) s)"
  proof (cases "n = s")
    case True
    with Cons.prems(3) g have "\<not> is_strong inc" and "\<not> is_common inc" by simp_all
    with Cons.prems(2) step True have "unbound i" by (auto intro: bind_unbound)
    with True show ?thesis by simp
  next
    case False
    with Cons.prems(2) show ?thesis by simp
  qed
  moreover from Cons.prems(3)
  have "\<forall>g\<in>set gs. fst g = s \<longrightarrow> \<not> is_strong (snd g) \<and> \<not> is_common (snd g)"
    by simp
  ultimately show ?case using rest Cons.IH by blast
qed

lemma resolve_symbols_owned:
  assumes "resolve_symbols other x gs t = Inr t'" and "owned_by a (t s)"
    and "\<forall>g\<in>set gs. fst g = s \<longrightarrow> \<not> is_common (snd g)"
  shows "owned_by a (t' s)"
  using assms
proof (induction gs arbitrary: t)
  case Nil
  then show ?case by simp
next
  case (Cons g gs)
  obtain n inc where g: "g = (n, inc)" by (cases g)
  from Cons.prems(1) g obtain i where
    step: "maybe_override_symbol other x inc (t n) = Inr i" and
    rest: "resolve_symbols other x gs (t(n := i)) = Inr t'"
    by (auto split: sum.splits)
  have "owned_by a ((t(n := i)) s)"
  proof (cases "n = s")
    case True
    with Cons.prems(3) g have "\<not> is_common inc" by simp
    with Cons.prems(2) step True have "owned_by a i" by (auto intro: bind_owned)
    with True show ?thesis by simp
  next
    case False
    with Cons.prems(2) show ?thesis by simp
  qed
  moreover from Cons.prems(3)
  have "\<forall>g\<in>set gs. fst g = s \<longrightarrow> \<not> is_common (snd g)"
    by simp
  ultimately show ?case using rest Cons.IH by blast
qed

lemma resolve_symbols_defining_file:
  assumes "resolve_symbols other a gs t = Inr t'" and "unbound (t s) \<or> owned_by a (t s)"
    and "\<forall>g\<in>set gs. fst g = s \<longrightarrow> \<not> is_common (snd g)"
    and "\<exists>g\<in>set gs. fst g = s \<and> is_strong (snd g)"
  shows "owned_by a (t' s)"
  using assms
proof (induction gs arbitrary: t)
  case Nil
  then show ?case by simp
next
  case (Cons g gs)
  obtain n inc where g: "g = (n, inc)" by (cases g)
  from Cons.prems(1) g obtain i where
    step: "maybe_override_symbol other a inc (t n) = Inr i" and
    rest: "resolve_symbols other a gs (t(n := i)) = Inr t'"
    by (auto split: sum.splits)
  from Cons.prems(3)
  have tail: "\<forall>g\<in>set gs. fst g = s \<longrightarrow> \<not> is_common (snd g)"
    by simp
  show ?case
  proof (cases "n = s \<and> is_strong inc")
    case True
    with Cons.prems(2) step have "owned_by a i" by (auto intro: bind_strong)
    with True have own: "owned_by a ((t(n := i)) s)" by simp
    from rest own tail show ?thesis by (rule resolve_symbols_owned)
  next
    case False
    with Cons.prems(4) g have later: "\<exists>g\<in>set gs. fst g = s \<and> is_strong (snd g)"
      by auto
    have "unbound ((t(n := i)) s) \<or> owned_by a ((t(n := i)) s)"
    proof (cases "n = s")
      case True
      with Cons.prems(3) g have "\<not> is_common inc" by simp
      from Cons.prems(2) this step have "unbound i \<or> owned_by a i"
        unfolding True by (rule bind_same_file)
      with True show ?thesis by simp
    next
      case False
      with Cons.prems(2) show ?thesis by simp
    qed
    with rest show ?thesis using tail later by (rule Cons.IH)
  qed
qed

text \<open>The same for a run of files.\<close>

lemma resolve_files_append:
  "resolve_files other x (fs @ gs) t =
     (case resolve_files other x fs t of
        Inl e \<Rightarrow> Inl e
      | Inr t1 \<Rightarrow> resolve_files other (x + length fs) gs t1)"
  by (induction fs arbitrary: x t) (auto split: sum.splits)

lemma resolve_files_unbound:
  assumes "resolve_files other x fs t = Inr t'" and "unbound (t s)"
    and "\<forall>f\<in>set fs. \<not> defines_strong s f \<and> \<not> has_common s f"
  shows "unbound (t' s)"
  using assms
proof (induction fs arbitrary: x t)
  case Nil
  then show ?case by simp
next
  case (Cons f fs)
  from Cons.prems(3) have tail: "\<forall>f\<in>set fs. \<not> defines_strong s f \<and> \<not> has_common s f"
    by simp
  show ?case
  proof (cases "is_alive f")
    case True
    with Cons.prems(1) obtain t1 where
      syms: "resolve_symbols other x (globals f) t = Inr t1" and
      rest: "resolve_files other (Suc x) fs t1 = Inr t'"
      by (auto split: sum.splits)
    from Cons.prems(3) have "\<not> defines_strong s f" and "\<not> has_common s f"
      by simp_all
    then have "\<forall>g\<in>set (globals f). fst g = s \<longrightarrow> \<not> is_strong (snd g) \<and> \<not> is_common (snd g)"
    proof (intro ballI impI)
      fix g assume none: "\<not> defines_strong s f" "\<not> has_common s f"
        and g: "g \<in> set (globals f)" and s: "fst g = s"
      obtain n inc where gp: "g = (n, inc)" by (cases g)
      from none(2) g s have "\<not> is_common (snd g)"
        by (auto simp: has_common_def list_ex_iff)
      moreover have "\<not> is_strong (snd g)"
      proof
        assume "is_strong (snd g)"
        then obtain d where "inc = In_strong d"
          using gp by (cases inc) auto
        with g s gp have "(s, In_strong d) \<in> set (globals f)"
          by simp
        with none(1) show False
          by (cases d) (simp_all add: defines_strong_def)
      qed
      ultimately show "\<not> is_strong (snd g) \<and> \<not> is_common (snd g)" by simp
    qed
    with syms Cons.prems(2) have "unbound (t1 s)"
      by (rule resolve_symbols_unbound)
    with rest show ?thesis using tail by (rule Cons.IH)
  next
    case False
    with Cons.prems(1) have "resolve_files other (Suc x) fs t = Inr t'" by simp
    then show ?thesis using Cons.prems(2) tail by (rule Cons.IH)
  qed
qed

lemma resolve_files_owned:
  assumes "resolve_files other x fs t = Inr t'" and "owned_by a (t s)"
    and "\<forall>f\<in>set fs. \<not> has_common s f"
  shows "owned_by a (t' s)"
  using assms
proof (induction fs arbitrary: x t)
  case Nil
  then show ?case by simp
next
  case (Cons f fs)
  from Cons.prems(3) have tail: "\<forall>f\<in>set fs. \<not> has_common s f"
    by simp
  show ?case
  proof (cases "is_alive f")
    case True
    with Cons.prems(1) obtain t1 where
      syms: "resolve_symbols other x (globals f) t = Inr t1" and
      rest: "resolve_files other (Suc x) fs t1 = Inr t'"
      by (auto split: sum.splits)
    from Cons.prems(3) have "\<forall>g\<in>set (globals f). fst g = s \<longrightarrow> \<not> is_common (snd g)"
      by (auto simp: has_common_def list_ex_iff)
    with syms Cons.prems(2) have "owned_by a (t1 s)"
      by (rule resolve_symbols_owned)
    with rest show ?thesis using tail by (rule Cons.IH)
  next
    case False
    with Cons.prems(1) have "resolve_files other (Suc x) fs t = Inr t'" by simp
    then show ?thesis using Cons.prems(2) tail by (rule Cons.IH)
  qed
qed

lemma owned_by_file_of: "owned_by a i \<Longrightarrow> file_of i = Some a"
  by (cases i) simp_all

text \<open>In command-line order the priorities grow, so a lower priority is an earlier file.\<close>

lemma lower_priority_earlier:
  assumes "sorted_wrt (<) (map priority files)"
    and "a < length files" and "b < length files"
    and "priority (files ! a) < priority (files ! b)"
  shows "a < b"
proof (rule ccontr)
  assume "\<not> a < b"
  then consider "a = b" | "b < a" by linarith
  then show False
  proof cases
    case 1
    with assms(4) show False by simp
  next
    case 2
    with assms(1,2) have "map priority files ! b < map priority files ! a"
      by (simp add: sorted_wrt_iff_nth_less)
    with assms(2,3,4) show False by simp
  qed
qed

section \<open>Facts about the offset assignment\<close>






section \<open>Stable pointers of the interning table\<close>

text \<open>
  C2: \<open>ConcurrentMap::insert(key, val)\<close> returns a stable pointer. The first insert of a
  key adds a node that holds the copy-constructed value and returns its address; an
  insert of a key that has a node returns that node's address and leaves the table as it
  is, also after the table has grown or the values of its nodes were changed through
  their pointers. So in any sequence of inserts (any order in which concurrent inserts
  are served) two inserts return the same pointer exactly when their keys are equal, the
  table has one node per key, and the node of a key holds the copy of the value of its
  first insert. For \<open>Symbol::intern\<close> the stored symbol is \<open>Symbol(name)\<close> itself and
  exactly one symbol exists per interned name; the copy of a string piece is the piece
  itself, and inserting the same piece twice gives the same pointer and one node, hence
  one offset.
\<close>

theorem ConcurrentMap_insert_stable_pointer:
  fixes cp :: "'v \<Rightarrow> 'v"
  shows
  "(lookup_node key m = None \<longrightarrow>
      ConcurrentMap_insert cp key val m = (length m, m @ [(key, cp val)]) \<and>
      value_at (m @ [(key, cp val)]) (length m) = Some (cp val)) \<and>
   (ConcurrentMap_insert cp key val m = (p, m1) \<longrightarrow>
      p < length m1 \<and> fst (m1 ! p) = key \<and>
      (\<forall>ext mx val2. map fst mx = map fst (m1 @ ext) \<longrightarrow>
         ConcurrentMap_insert cp key val2 mx = (p, mx))) \<and>
   (inserts cp ops [] = (ps, m') \<longrightarrow>
      length ps = length ops \<and>
      ConcurrentMap_size m' = card (fst ` set ops) \<and>
      (\<forall>i<length ops. \<forall>j<length ops. (ps ! i = ps ! j) = (fst (ops ! i) = fst (ops ! j))) \<and>
      (\<forall>i<length ops. (\<forall>j<i. fst (ops ! j) \<noteq> fst (ops ! i)) \<longrightarrow>
         value_at m' (ps ! i) = Some (cp (snd (ops ! i))))) \<and>
   (interns ns [] = (qs, tbl) \<longrightarrow>
      (\<forall>n\<in>set ns. \<exists>!q. q < length tbl \<and> Symbol.name (snd (tbl ! q)) = n) \<and>
      (\<forall>i<length ns. value_at tbl (qs ! i) = Some (Symbol_ctor (ns ! i) None))) \<and>
   StringPiece_copy sp = sp \<and>
   (ConcurrentMap_insert StringPiece_copy d (StringPiece_ctor d i1) (piece_map ms) = (p1, pm1) \<and>
    ConcurrentMap_insert StringPiece_copy d (StringPiece_ctor d i2) pm1 = (p2, pm2) \<longrightarrow>
      p2 = p1 \<and> pm2 = pm1)"
proof (intro conjI impI)
  assume "lookup_node key m = None"
  then show "ConcurrentMap_insert cp key val m = (length m, m @ [(key, cp val)])"
    by (rule ConcurrentMap_insert_new)
  show "value_at (m @ [(key, cp val)]) (length m) = Some (cp val)"
    by (simp add: value_at_def)
next
  assume ins: "ConcurrentMap_insert cp key val m = (p, m1)"
  have look: "lookup_node key m1 = Some p"
    using ins by (rule ConcurrentMap_insert_lookup)
  then show "p < length m1" and "fst (m1 ! p) = key"
    using lookup_node_Some by blast+
  show "\<forall>ext mx val2. map fst mx = map fst (m1 @ ext) \<longrightarrow>
      ConcurrentMap_insert cp key val2 mx = (p, mx)"
  proof (intro allI impI)
    fix ext and mx :: "(string \<times> 'v) list" and val2
    assume "map fst mx = map fst (m1 @ ext)"
    then have "lookup_node key mx = lookup_node key (m1 @ ext)"
      by (rule lookup_node_keys)
    also have "\<dots> = Some p"
      using look by (rule lookup_node_stable)
    finally show "ConcurrentMap_insert cp key val2 mx = (p, mx)"
      by (rule ConcurrentMap_insert_old)
  qed
next
  assume run: "inserts cp ops [] = (ps, m')"
  note facts = inserts_from_empty [OF run]
  show "length ps = length ops" by (fact facts(1))
  have "length m' = length (map fst m')" by simp
  also have "\<dots> = card (set (map fst m'))"
    using distinct_card [OF facts(2)] by (simp only:)
  also have "\<dots> = card (fst ` set ops)"
    using facts(3) by simp
  finally show "ConcurrentMap_size m' = card (fst ` set ops)"
    by (simp add: ConcurrentMap_size_def)
  show "\<forall>i<length ops. \<forall>j<length ops. (ps ! i = ps ! j) = (fst (ops ! i) = fst (ops ! j))"
  proof (intro allI impI)
    fix i j assume i: "i < length ops" and j: "j < length ops"
    have li: "lookup_node (fst (ops ! i)) m' = Some (ps ! i)" using i by (rule facts(4))
    have lj: "lookup_node (fst (ops ! j)) m' = Some (ps ! j)" using j by (rule facts(4))
    show "(ps ! i = ps ! j) = (fst (ops ! i) = fst (ops ! j))"
    proof
      assume "ps ! i = ps ! j"
      with lookup_node_Some [OF li] lookup_node_Some [OF lj]
      show "fst (ops ! i) = fst (ops ! j)" by simp
    next
      assume "fst (ops ! i) = fst (ops ! j)"
      with li lj show "ps ! i = ps ! j" by simp
    qed
  qed
  show "\<forall>i<length ops. (\<forall>j<i. fst (ops ! j) \<noteq> fst (ops ! i)) \<longrightarrow>
      value_at m' (ps ! i) = Some (cp (snd (ops ! i)))"
  proof (intro allI impI)
    fix i assume i: "i < length ops" and first: "\<forall>j<i. fst (ops ! j) \<noteq> fst (ops ! i)"
    have "ps ! i < length m'"
      using lookup_node_Some [OF facts(4) [OF i]] by simp
    moreover have "m' ! (ps ! i) = (fst (ops ! i), cp (snd (ops ! i)))"
      using i first by (rule facts(5))
    ultimately show "value_at m' (ps ! i) = Some (cp (snd (ops ! i)))"
      by (simp add: value_at_def)
  qed
next
  assume "interns ns [] = (qs, tbl)"
  then have run: "inserts Symbol_copy (map (\<lambda>n. (n, Symbol_ctor n None)) ns) [] = (qs, tbl)"
    by (simp add: interns_inserts)
  note facts = inserts_from_empty [OF run]
  have node: "snd (tbl ! q) = Symbol_ctor (fst (tbl ! q)) None" if "q < length tbl" for q
  proof -
    from facts(6) [OF that] obtain i where "i < length ns"
      and "tbl ! q = (ns ! i, Symbol_copy (Symbol_ctor (ns ! i) None))"
      by auto
    then show ?thesis by (simp add: Symbol_copy_fresh)
  qed
  have name: "Symbol.name (snd (tbl ! q)) = fst (tbl ! q)" if "q < length tbl" for q
    using node [OF that] by (simp add: Symbol_ctor_def)
  show "\<forall>n\<in>set ns. \<exists>!q. q < length tbl \<and> Symbol.name (snd (tbl ! q)) = n"
  proof
    fix n assume "n \<in> set ns"
    then have "n \<in> fst ` set tbl"
      using facts(3) by force
    then obtain q where q: "q < length tbl" and key: "fst (tbl ! q) = n"
      by (auto simp: in_set_conv_nth)
    show "\<exists>!q. q < length tbl \<and> Symbol.name (snd (tbl ! q)) = n"
    proof (rule ex1I [of _ q])
      show "q < length tbl \<and> Symbol.name (snd (tbl ! q)) = n"
        using q key by (simp add: name)
    next
      fix r assume r: "r < length tbl \<and> Symbol.name (snd (tbl ! r)) = n"
      then have "fst (tbl ! r) = n" using name [of r] by simp
      with r have "lookup_node n tbl = Some r"
        using facts(2) by (simp add: lookup_node_distinct)
      moreover have "lookup_node n tbl = Some q"
        using facts(2) q key by (simp add: lookup_node_distinct)
      ultimately show "r = q" by simp
    qed
  qed
  show "\<forall>i<length ns. value_at tbl (qs ! i) = Some (Symbol_ctor (ns ! i) None)"
  proof (intro allI impI)
    fix i assume i: "i < length ns"
    then have "lookup_node (ns ! i) tbl = Some (qs ! i)"
      using facts(4) [of i] by simp
    then have "qs ! i < length tbl" and "fst (tbl ! (qs ! i)) = ns ! i"
      using lookup_node_Some by blast+
    then show "value_at tbl (qs ! i) = Some (Symbol_ctor (ns ! i) None)"
      by (simp add: value_at_def node)
  qed
next
  show "StringPiece_copy sp = sp" by (rule StringPiece_copy_id)
next
  assume twice:
    "ConcurrentMap_insert StringPiece_copy d (StringPiece_ctor d i1) (piece_map ms) = (p1, pm1) \<and>
     ConcurrentMap_insert StringPiece_copy d (StringPiece_ctor d i2) pm1 = (p2, pm2)"
  then have "ConcurrentMap_insert StringPiece_copy d (StringPiece_ctor d i1) (piece_map ms) =
      (p1, pm1)"
    by simp
  then have "lookup_node d pm1 = Some p1"
    by (rule ConcurrentMap_insert_lookup)
  then have "ConcurrentMap_insert StringPiece_copy d (StringPiece_ctor d i2) pm1 = (p1, pm1)"
    by (rule ConcurrentMap_insert_old)
  with twice show "p2 = p1" and "pm2 = pm1" by simp_all
qed

theorem ConcurrentMap_insert_stable_pointer_witness:
  "interns [''main'', ''puts'', ''main''] [] = ([0, 1, 0], ex_symbols) \<and>
   (\<exists>!q. q < length ex_symbols \<and> Symbol.name (snd (ex_symbols ! q)) = ''main'') \<and>
   (\<exists>!q. q < length ex_symbols \<and> Symbol.name (snd (ex_symbols ! q)) = ''puts'') \<and>
   value_at ex_symbols 0 = Some (Symbol_ctor ''main'' None) \<and>
   lookup_node ''hello'' (piece_map ex_merged) = None \<and>
   ConcurrentMap_insert StringPiece_copy ''hello'' (StringPiece_ctor ''hello'' (Some 0))
     (piece_map ex_merged) = (0, ex_pieces) \<and>
   ConcurrentMap_insert StringPiece_copy ''hello'' (StringPiece_ctor ''hello'' (Some 1))
     ex_pieces = (0, ex_pieces) \<and>
   inserts StringPiece_copy
     [(''hello'', StringPiece_ctor ''hello'' (Some 0)),
      (''hello'', StringPiece_ctor ''hello'' (Some 1))] [] = ([0, 0], ex_pieces) \<and>
   ConcurrentMap_size ex_pieces = 1 \<and>
   value_at ex_pieces 0 = Some (StringPiece_ctor ''hello'' (Some 0))"
proof -
  let ?ops = "[(''hello'', StringPiece_ctor ''hello'' (Some 0)),
               (''hello'', StringPiece_ctor ''hello'' (Some 1))]"
  have both: "inserts StringPiece_copy ?ops [] = ([0, 0], ex_pieces)"
    by (simp add: ConcurrentMap_insert_def ex_pieces_def StringPiece_copy_id)
  have run: "interns [''main'', ''puts'', ''main''] [] = ([0, 1, 0], ex_symbols)"
    by (simp add: Symbol_intern_def ConcurrentMap_insert_def ex_symbols_def Symbol_copy_fresh)
  have fresh: "lookup_node ''hello'' (piece_map ex_merged) = None"
    by (simp add: ex_merged_def)
  note stable = ConcurrentMap_insert_stable_pointer
    [where ns = "[''main'', ''puts'', ''main'']" and qs = "[0, 1, 0]" and tbl = ex_symbols
       and cp = StringPiece_copy and key = "''hello''" and m = "piece_map ex_merged"
       and val = "StringPiece_ctor ''hello'' (Some 0)" and p = 0 and ?m1.0 = ex_pieces
       and ops = ?ops and ps = "[0, 0]" and m' = ex_pieces]
  from stable [THEN conjunct1, rule_format, OF fresh]
  have first: "ConcurrentMap_insert StringPiece_copy ''hello''
      (StringPiece_ctor ''hello'' (Some 0)) (piece_map ex_merged) = (0, ex_pieces)"
    by (simp add: ex_merged_def ex_pieces_def StringPiece_copy_def StringPiece_ctor_def)
  from stable [THEN conjunct2, THEN conjunct1, rule_format, OF first]
  have again: "\<forall>ext mx val2. map fst mx = map fst (ex_pieces @ ext) \<longrightarrow>
      ConcurrentMap_insert StringPiece_copy ''hello'' val2 mx = (0, mx)"
    by simp
  have second: "ConcurrentMap_insert StringPiece_copy ''hello''
      (StringPiece_ctor ''hello'' (Some 1)) ex_pieces = (0, ex_pieces)"
    using again [rule_format, of ex_pieces "[]"] by simp
  note syms = stable [THEN conjunct2, THEN conjunct2, THEN conjunct2, THEN conjunct1,
      rule_format, OF run]
  have one: "\<forall>n\<in>set [''main'', ''puts'', ''main''].
      \<exists>!q. q < length ex_symbols \<and> Symbol.name (snd (ex_symbols ! q)) = n"
    by (rule syms [THEN conjunct1])
  have vals: "\<forall>i<length [''main'', ''puts'', ''main''].
      value_at ex_symbols ([0, 1, 0] ! i) = Some (Symbol_ctor ([''main'', ''puts'', ''main''] ! i) None)"
    by (rule syms [THEN conjunct2])
  from vals [rule_format, of 0] have v0: "value_at ex_symbols 0 = Some (Symbol_ctor ''main'' None)"
    by simp
  from one have main: "\<exists>!q. q < length ex_symbols \<and> Symbol.name (snd (ex_symbols ! q)) = ''main''"
    by simp
  from one have puts: "\<exists>!q. q < length ex_symbols \<and> Symbol.name (snd (ex_symbols ! q)) = ''puts''"
    by simp
  note pieces = stable [THEN conjunct2, THEN conjunct2, THEN conjunct1, rule_format, OF both]
  have "ConcurrentMap_size ex_pieces = card (fst ` set ?ops)"
    by (rule pieces [THEN conjunct2, THEN conjunct1])
  then have one_node: "ConcurrentMap_size ex_pieces = 1"
    by simp
  have "\<forall>i<length ?ops. (\<forall>j<i. fst (?ops ! j) \<noteq> fst (?ops ! i)) \<longrightarrow>
      value_at ex_pieces ([0, 0] ! i) = Some (StringPiece_copy (snd (?ops ! i)))"
    by (rule pieces [THEN conjunct2, THEN conjunct2, THEN conjunct2])
  from this [rule_format, of 0]
  have kept: "value_at ex_pieces 0 = Some (StringPiece_ctor ''hello'' (Some 0))"
    by (simp add: StringPiece_copy_id)
  from run main puts v0 fresh first second both one_node kept show ?thesis
    by (intro conjI)
qed

section \<open>Symbol addresses\<close>

text \<open>
  C3: \<open>Symbol::get_addr\<close> routes through piece, then section, then raw value. If the
  symbol's piece pointer is non-null the result is the piece's address
  (\<open>StringPiece::get_addr\<close>) plus the addend of the piece reference, whatever the
  input section pointer is; otherwise, if the input section pointer is non-null, it is
  the \<open>sh_addr\<close> of the input section's output section plus the section's offset plus
  the symbol's value; otherwise it is the symbol's value. The piece's address is the
  merged section's \<open>sh_addr\<close> plus the winning input section's \<open>merged_offset\<close> plus the
  piece's \<open>output_offset\<close>. All sums are 64-bit.
\<close>

theorem Symbol_get_addr_routes:
  "(\<forall>p sp a. piece (piece_ref s) = Some p \<and> string_pieces h p = Some sp \<and>
       StringPiece_get_addr h sp = Some a \<longrightarrow>
       Symbol_get_addr h s = Some (a + ucast (addend (piece_ref s)))) \<and>
   (\<forall>i is os oc. piece (piece_ref s) = None \<and> input_section s = Some i \<and>
       input_sections h i = Some is \<and> output_section is = Some os \<and>
       output_sections h os = Some oc \<longrightarrow>
       Symbol_get_addr h s = Some (sh_addr (shdr oc) + ucast (offset is) + value s)) \<and>
   (piece (piece_ref s) = None \<and> input_section s = None \<longrightarrow>
       Symbol_get_addr h s = Some (value s)) \<and>
   (\<forall>sp j js m ms. isec sp = Some j \<and> input_sections h j = Some js \<and>
       merged_section js = Some m \<and> merged_sections h m = Some ms \<longrightarrow>
       StringPiece_get_addr h sp =
         Some (sh_addr (shdr ms) + ucast (merged_offset js) + ucast (output_offset sp)))"
  by (simp add: Symbol_get_addr_def StringPiece_get_addr_def)

theorem Symbol_get_addr_routes_witness:
  "Symbol_get_addr ex_heap ex_sym_piece = Some 0x402019 \<and>
   Symbol_get_addr ex_heap ex_sym_section = Some 0x401048 \<and>
   Symbol_get_addr ex_heap ex_sym_abs = Some 8"
  using Symbol_get_addr_routes [of ex_sym_piece ex_heap]
    Symbol_get_addr_routes [of ex_sym_section ex_heap]
    Symbol_get_addr_routes [of ex_sym_abs ex_heap]
  by (simp add: ex_heap_def ex_isec_def ex_sym_piece_def ex_sym_section_def ex_sym_abs_def
        Symbol_ctor_def StringPiece_ctor_def StringPieceRef_default_def OutputChunk_ctor_def
        Shdr_zero_def StringPiece_get_addr_def ex_merged_def)

section \<open>Priority monotonicity\<close>

text \<open>
  C4: in the binding rule an incoming non-weak definition never replaces an installed
  non-weak definition (the rule keeps the installed one or fails with the
  multiple-definition error). Let the live files be bound in command-line order, in which
  the priorities grow, and let the pass succeed. If files \<open>A\<close> and \<open>B\<close> both define the
  name \<open>s\<close> non-weak, \<open>A\<close> has the lower priority, no other file defines \<open>s\<close> non-weak and
  no file has a common \<open>s\<close>, then after the pass the file of \<open>s\<close> is \<open>A\<close>. This holds for
  every behaviour on the pairs that the binding table leaves open.
\<close>

theorem priority_monotonicity:
  "\<lbrakk>resolve_files other 0 files initial_symbols = Inr tbl;
    sorted_wrt (<) (map priority files);
    a < length files; b < length files;
    priority (files ! a) < priority (files ! b);
    is_alive (files ! a); is_alive (files ! b);
    defines_strong s (files ! a); defines_strong s (files ! b);
    \<forall>c<length files. c \<noteq> a \<and> c \<noteq> b \<longrightarrow> \<not> defines_strong s (files ! c);
    \<forall>c<length files. \<not> has_common s (files ! c)\<rbrakk>
   \<Longrightarrow> file_of (tbl s) = Some a \<and>
       (\<forall>x d f d' i. maybe_override_symbol other x (In_strong d) (Strong f d') = Inr i \<longrightarrow>
          i = Strong f d')"
proof -
  assume run: "resolve_files other 0 files initial_symbols = Inr tbl"
    and order: "sorted_wrt (<) (map priority files)"
    and a: "a < length files" and b: "b < length files"
    and lower: "priority (files ! a) < priority (files ! b)"
    and alive: "is_alive (files ! a)"
    and strong_a: "defines_strong s (files ! a)"
    and others: "\<forall>c<length files. c \<noteq> a \<and> c \<noteq> b \<longrightarrow> \<not> defines_strong s (files ! c)"
    and no_common: "\<forall>c<length files. \<not> has_common s (files ! c)"
  have ab: "a < b"
    using order a b lower by (rule lower_priority_earlier)
  have split: "files = take a files @ files ! a # drop (Suc a) files"
    using a by (rule id_take_nth_drop)
  have len: "length (take a files) = a"
    using a by simp
  from run obtain t1 where
    before: "resolve_files other 0 (take a files) initial_symbols = Inr t1" and
    from_a: "resolve_files other a (files ! a # drop (Suc a) files) t1 = Inr tbl"
  proof -
    have "resolve_files other 0 (take a files @ files ! a # drop (Suc a) files)
        initial_symbols = Inr tbl"
      using run split by simp
    then show thesis
      using that len by (auto simp: resolve_files_append split: sum.splits)
  qed
  from from_a alive obtain t2 where
    at_a: "resolve_symbols other a (globals (files ! a)) t1 = Inr t2" and
    after: "resolve_files other (Suc a) (drop (Suc a) files) t2 = Inr tbl"
    by (auto split: sum.splits)
  have init: "unbound (initial_symbols s)"
    by (simp add: initial_symbols_def)
  have quiet: "\<forall>f\<in>set (take a files). \<not> defines_strong s f \<and> \<not> has_common s f"
  proof
    fix f assume "f \<in> set (take a files)"
    then obtain c where c: "c < a" and f: "f = files ! c"
      using a by (auto simp: in_set_conv_nth)
    from c a ab have "c < length files" and "c \<noteq> a \<and> c \<noteq> b" by simp_all
    with others no_common f show "\<not> defines_strong s f \<and> \<not> has_common s f"
      by blast
  qed
  from before init quiet have "unbound (t1 s)"
    by (rule resolve_files_unbound)
  then have start: "unbound (t1 s) \<or> owned_by a (t1 s)" ..
  have own_symbols: "\<forall>g\<in>set (globals (files ! a)). fst g = s \<longrightarrow> \<not> is_common (snd g)"
    using no_common a by (auto simp: has_common_def list_ex_iff)
  have has_def: "\<exists>g\<in>set (globals (files ! a)). fst g = s \<and> is_strong (snd g)"
    using strong_a by (force simp: defines_strong_def)
  from at_a start own_symbols has_def have own: "owned_by a (t2 s)"
    by (rule resolve_symbols_defining_file)
  have later: "\<forall>f\<in>set (drop (Suc a) files). \<not> has_common s f"
    using no_common by (auto simp: in_set_conv_nth)
  from after own later have "owned_by a (tbl s)"
    by (rule resolve_files_owned)
  then have "file_of (tbl s) = Some a"
    by (rule owned_by_file_of)
  moreover have "\<forall>x d f d' i.
      maybe_override_symbol other x (In_strong d) (Strong f d') = Inr i \<longrightarrow> i = Strong f d'"
    by (auto split: if_splits)
  ultimately show ?thesis ..
qed

theorem priority_monotonicity_witness:
  "resolve_files ex_other 0 ex_files initial_symbols = Inr ex_resolved \<and>
   sorted_wrt (<) (map priority ex_files) \<and>
   priority (ex_files ! 1) < priority (ex_files ! 2) \<and>
   defines_strong ''f'' (ex_files ! 1) \<and> defines_strong ''f'' (ex_files ! 2) \<and>
   file_of (ex_resolved ''f'') = Some 1"
proof -
  have run: "resolve_files ex_other 0 ex_files initial_symbols = Inr ex_resolved"
    by (simp add: ex_files_def ex_resolved_def initial_symbols_def fun_eq_iff)
  have order: "sorted_wrt (<) (map priority ex_files)"
    by (simp add: ex_files_def)
  have a: "1 < length ex_files" and b: "2 < length ex_files"
    by (simp_all add: ex_files_def)
  have lower: "priority (ex_files ! 1) < priority (ex_files ! 2)"
    by (simp add: ex_files_def)
  have alive: "is_alive (ex_files ! 1)" "is_alive (ex_files ! 2)"
    by (simp_all add: ex_files_def)
  have strong: "defines_strong ''f'' (ex_files ! 1)" "defines_strong ''f'' (ex_files ! 2)"
    by (simp_all add: ex_files_def defines_strong_def)
  have others: "\<forall>c<length ex_files. c \<noteq> 1 \<and> c \<noteq> 2 \<longrightarrow> \<not> defines_strong ''f'' (ex_files ! c)"
    by (simp add: ex_files_def defines_strong_def less_Suc_eq)
  have no_common: "\<forall>c<length ex_files. \<not> has_common ''f'' (ex_files ! c)"
    by (auto simp: ex_files_def has_common_def less_Suc_eq)
  from priority_monotonicity [OF run order a b lower alive strong others no_common]
  have "file_of (ex_resolved ''f'') = Some 1"
    by simp
  with run order lower strong show ?thesis
    by simp
qed

section \<open>Addresses of merged string pieces\<close>




section \<open>Fatal errors\<close>



section \<open>PLT slots\<close>

text \<open>
  C7: for every slot position with six bytes of buffer behind it and every 32-bit
  displacement, \<open>PltSection::write_entry\<close> leaves the six bytes 0xff, 0x25 and the
  displacement in little-endian byte order at the position (reading the four bytes back
  least significant first gives the displacement), keeps the buffer's length and changes
  no byte outside the slot.
\<close>

theorem write_entry_writes_jmp_slot:
  "buf + 6 \<le> length mem \<Longrightarrow>
     (\<exists>mem'. write_entry mem buf v = Some mem' \<and>
        length mem' = length mem \<and>
        take 6 (drop buf mem') = [0xff, 0x25] @ le_bytes_u32 v \<and>
        le_u32 (drop 2 (take 6 (drop buf mem'))) = v \<and>
        (\<forall>i. i < buf \<or> buf + 6 \<le> i \<longrightarrow> mem' ! i = mem ! i))"
proof -
  assume room: "buf + 6 \<le> length mem"
  define mem' where "mem' = store_u32 (mem[buf := 0xff, buf + 1 := 0x25]) (buf + 2) v"
  have res: "write_entry mem buf v = Some mem'"
    using room by (simp add: write_entry_def mem'_def)
  have len: "length mem' = length mem"
    by (simp add: mem'_def length_store_u32)
  have slot: "take 6 (drop buf mem') = [0xff, 0x25] @ le_bytes_u32 v"
    unfolding mem'_def using room by (rule write_entry_slot)
  have decode: "le_u32 (drop 2 (take 6 (drop buf mem'))) = v"
    by (simp add: slot le_u32_le_bytes_u32)
  have frame: "\<forall>i. i < buf \<or> buf + 6 \<le> i \<longrightarrow> mem' ! i = mem ! i"
    unfolding mem'_def using write_entry_frame [of _ buf mem v] by blast
  from res len slot decode frame show ?thesis by blast
qed

theorem write_entry_writes_jmp_slot_witness:
  "1 + 6 \<le> length [1, 2, 3, 4, 5, 6, 7, 8, 9 :: u8] \<and>
   write_entry [1, 2, 3, 4, 5, 6, 7, 8, 9] 1 0x11223344 =
     Some [1, 0xff, 0x25, 0x44, 0x33, 0x22, 0x11, 8, 9]"
  using write_entry_writes_jmp_slot [of 1 "[1, 2, 3, 4, 5, 6, 7, 8, 9]" "0x11223344"]
  by (simp add: write_entry_def store_u32_def le_bytes_u32_def)

section \<open>The section name table\<close>

text \<open>
  C8: a fresh \<open>ShstrtabSection\<close> holds the single NUL byte and has \<open>sh_size\<close> 1.
  \<open>add_string(s)\<close> returns the old size of the contents, which is where it appends the
  bytes of \<open>s\<close> and then a NUL, and sets \<open>sh_size\<close> to the new length of the contents.
  \<open>copy_to\<close> puts the contents at \<open>sh_offset\<close> of the output buffer and changes nothing
  else. So, after any run of \<open>add_string\<close> calls on a fresh table and the copy, the buffer
  holds at \<open>sh_offset\<close> plus each returned offset the bytes of that call's name followed
  by a NUL.
\<close>

theorem ShstrtabSection_offsets_point_at_names:
  "contents ShstrtabSection_ctor = [NUL] \<and>
   sh_size (shdr ShstrtabSection_ctor) = 1 \<and>
   (add_string s c = (r, c') \<longrightarrow>
      r = of_nat (length (contents c)) \<and>
      contents c' = contents c @ s @ [NUL] \<and>
      sh_size (shdr c') = of_nat (length (contents c'))) \<and>
   (unat (sh_offset (shdr d)) + length (contents d) \<le> length buf \<longrightarrow>
      (\<exists>buf'. ShstrtabSection_copy_to d buf = Some buf' \<and>
         length buf' = length buf \<and>
         take (length (contents d)) (drop (unat (sh_offset (shdr d))) buf') =
           bytes_of (contents d) \<and>
         (\<forall>i<length buf.
            i < unat (sh_offset (shdr d)) \<or>
            unat (sh_offset (shdr d)) + length (contents d) \<le> i \<longrightarrow>
            buf' ! i = buf ! i))) \<and>
   (add_strings ns ShstrtabSection_ctor = (offs, e) \<and>
    length (contents e) < 2 ^ 64 \<and>
    ShstrtabSection_copy_to (e\<lparr>shdr := (shdr e)\<lparr>sh_offset := off\<rparr>\<rparr>) img = Some img' \<longrightarrow>
      unat (sh_size (shdr e)) = length (contents e) \<and>
      length offs = length ns \<and>
      (\<forall>i<length ns.
         take (length (ns ! i) + 1) (drop (unat off + unat (offs ! i)) img') =
           bytes_of (ns ! i) @ [0]))"
proof (intro conjI impI)
  show "contents ShstrtabSection_ctor = [NUL]"
    by (simp add: ShstrtabSection_ctor_def)
  show "sh_size (shdr ShstrtabSection_ctor) = 1"
    by (simp add: ShstrtabSection_ctor_def)
next
  assume step: "add_string s c = (r, c')"
  show "r = of_nat (length (contents c))"
    using step by (rule add_string_result(1))
  show "contents c' = contents c @ s @ [NUL]"
    using step by (rule add_string_result(2))
  show "sh_size (shdr c') = of_nat (length (contents c'))"
    using step by (rule add_string_result(3))
next
  let ?pos = "unat (sh_offset (shdr d))"
  assume fits: "?pos + length (contents d) \<le> length buf"
  define buf' where
    "buf' = take ?pos buf @ bytes_of (contents d) @ drop (?pos + length (contents d)) buf"
  have res: "memcpy buf ?pos (bytes_of (contents d)) = Some buf'"
    using fits by (simp add: memcpy_def buf'_def length_bytes_of)
  have "ShstrtabSection_copy_to d buf = Some buf'"
    using res by (simp add: ShstrtabSection_copy_to_def)
  moreover have "length buf' = length buf"
    using res by (rule memcpy_length)
  moreover have "take (length (contents d)) (drop ?pos buf') = bytes_of (contents d)"
    using memcpy_slice [OF res] by (simp add: length_bytes_of)
  moreover have "\<forall>i<length buf.
      i < ?pos \<or> ?pos + length (contents d) \<le> i \<longrightarrow> buf' ! i = buf ! i"
    using memcpy_frame [OF res] by (simp add: length_bytes_of)
  ultimately show "\<exists>buf'. ShstrtabSection_copy_to d buf = Some buf' \<and>
      length buf' = length buf \<and>
      take (length (contents d)) (drop ?pos buf') = bytes_of (contents d) \<and>
      (\<forall>i<length buf.
         i < ?pos \<or> ?pos + length (contents d) \<le> i \<longrightarrow> buf' ! i = buf ! i)"
    by blast
next
  assume run: "add_strings ns ShstrtabSection_ctor = (offs, e) \<and>
    length (contents e) < 2 ^ 64 \<and>
    ShstrtabSection_copy_to (e\<lparr>shdr := (shdr e)\<lparr>sh_offset := off\<rparr>\<rparr>) img = Some img'"
  then have adds: "add_strings ns ShstrtabSection_ctor = (offs, e)"
    and small: "length (contents e) < 2 ^ 64"
    and copy: "memcpy img (unat off) (bytes_of (contents e)) = Some img'"
    by (simp_all add: ShstrtabSection_copy_to_def)
  have "sh_size (shdr e) = of_nat (length (contents e))"
    using adds by (rule add_strings_sh_size) (simp add: ShstrtabSection_ctor_def)
  with small show "unat (sh_size (shdr e)) = length (contents e)"
    by (simp add: unat_of_nat_u64)
  from add_strings_layout [OF adds] have len: "length offs = length ns"
    and at: "\<forall>i<length ns. \<exists>pre post.
        contents e = pre @ (ns ! i @ [NUL]) @ post \<and> offs ! i = of_nat (length pre)"
    by blast+
  show "length offs = length ns" by (fact len)
  show "\<forall>i<length ns.
      take (length (ns ! i) + 1) (drop (unat off + unat (offs ! i)) img') =
        bytes_of (ns ! i) @ [0]"
  proof (intro allI impI)
    fix i assume "i < length ns"
    with at obtain pre post where
      split: "contents e = pre @ (ns ! i @ [NUL]) @ post" and
      offs: "offs ! i = of_nat (length pre)"
      by blast
    from split small have "length pre < 2 ^ 64" by simp
    then have pos: "unat (offs ! i) = length (bytes_of pre)"
      by (simp add: offs unat_of_nat_u64 length_bytes_of)
    have "bytes_of (contents e) = bytes_of pre @ bytes_of (ns ! i @ [NUL]) @ bytes_of post"
      by (simp only: split bytes_of_append)
    with copy have "memcpy img (unat off)
        (bytes_of pre @ bytes_of (ns ! i @ [NUL]) @ bytes_of post) = Some img'"
      by (simp only:)
    from memcpy_sub_slice [OF this]
    have "take (length (bytes_of (ns ! i @ [NUL])))
        (drop (unat off + length (bytes_of pre)) img') = bytes_of (ns ! i @ [NUL])" .
    then show "take (length (ns ! i) + 1) (drop (unat off + unat (offs ! i)) img') =
        bytes_of (ns ! i) @ [0]"
      by (simp add: pos length_bytes_of bytes_of_append bytes_of_NUL)
  qed
qed

theorem ShstrtabSection_offsets_point_at_names_witness:
  "fst (add_strings [''.text'', ''.bss''] ShstrtabSection_ctor) = [1, 7] \<and>
   contents ex_shstrtab = [NUL] @ ''.text'' @ [NUL] @ ''.bss'' @ [NUL] \<and>
   unat (sh_size (shdr ex_shstrtab)) = 12 \<and>
   ShstrtabSection_copy_to (ex_shstrtab\<lparr>shdr := (shdr ex_shstrtab)\<lparr>sh_offset := 2\<rparr>\<rparr>)
     ex_blank = Some ex_image \<and>
   take 6 (drop (2 + 1) ex_image) = bytes_of ''.text'' @ [0] \<and>
   take 5 (drop (2 + 7) ex_image) = bytes_of ''.bss'' @ [0]"
proof -
  have run: "add_strings [''.text'', ''.bss''] ShstrtabSection_ctor = ([1, 7], ex_shstrtab)"
    by (simp add: ex_shstrtab_def add_string_def Let_def ShstrtabSection_ctor_def)
  have cont: "contents ex_shstrtab = [NUL] @ ''.text'' @ [NUL] @ ''.bss'' @ [NUL]"
    by (simp add: ex_shstrtab_def add_string_def Let_def ShstrtabSection_ctor_def)
  have small: "length (contents ex_shstrtab) < 2 ^ 64"
    by (simp add: cont)
  have copy: "ShstrtabSection_copy_to (ex_shstrtab\<lparr>shdr := (shdr ex_shstrtab)\<lparr>sh_offset := 2\<rparr>\<rparr>)
      ex_blank = Some ex_image"
    by (simp add: ex_image_def ex_blank_def ShstrtabSection_copy_to_def cont memcpy_def bytes_of_def)
  from ShstrtabSection_offsets_point_at_names
    [of _ _ _ _ _ _ "[''.text'', ''.bss'']" "[1, 7]" ex_shstrtab 2 ex_blank ex_image]
    run small copy
  have size: "unat (sh_size (shdr ex_shstrtab)) = length (contents ex_shstrtab)"
    and names: "\<forall>i<length [''.text'', ''.bss''].
      take (length ([''.text'', ''.bss''] ! i) + 1)
        (drop (unat (2 :: u64) + unat ([1, 7 :: u64] ! i)) ex_image) =
        bytes_of ([''.text'', ''.bss''] ! i) @ [0]"
    by blast+
  from names [rule_format, of 0]
  have "take (Suc (Suc (Suc (Suc (Suc (Suc 0)))))) (drop 3 ex_image) = bytes_of ''.text'' @ [0]"
    by simp
  then have n0: "take 6 (drop (2 + 1) ex_image) = bytes_of ''.text'' @ [0]"
    by (simp add: eval_nat_numeral)
  from names [rule_format, of 1]
  have "take (Suc (Suc (Suc (Suc (Suc 0))))) (drop 9 ex_image) = bytes_of ''.bss'' @ [0]"
    by simp
  then have n1: "take 5 (drop (2 + 7) ex_image) = bytes_of ''.bss'' @ [0]"
    by (simp add: eval_nat_numeral)
  from run cont size copy n0 n1 show ?thesis
    by simp
qed

section \<open>The interpreter chunk\<close>

text \<open>
  C9: the \<open>.interp\<close> chunk has \<open>sh_size\<close> 28, the size of the path
  \<open>/lib64/ld-linux-x86-64.so.2\<close> with its trailing NUL, and its \<open>copy_to\<close> writes exactly
  these 28 bytes at \<open>sh_offset\<close> of the buffer and nothing else. The chunk is in the
  collected chunk list only if there is a dynamic segment, so a static link leaves it out.
\<close>

theorem InterpSection_size_bytes_presence:
  "sh_size (shdr InterpSection_ctor) = 28 \<and>
   length path = 28 \<and>
   name InterpSection_ctor = ''.interp'' \<and>
   (unat (sh_offset (shdr c)) + 28 \<le> length buf \<longrightarrow>
      (\<exists>buf'. InterpSection_copy_to c buf = Some buf' \<and>
         length buf' = length buf \<and>
         take 28 (drop (unat (sh_offset (shdr c))) buf') =
           bytes_of ''/lib64/ld-linux-x86-64.so.2'' @ [0] \<and>
         (\<forall>i<length buf.
            i < unat (sh_offset (shdr c)) \<or> unat (sh_offset (shdr c)) + 28 \<le> i \<longrightarrow>
            buf' ! i = buf ! i))) \<and>
   (K_interp \<in> set (collect_chunks cfg osecs msecs) \<longrightarrow> has_dynamic_segment cfg) \<and>
   (is_static cfg \<longrightarrow> K_interp \<notin> set (collect_chunks cfg osecs msecs))"
proof (intro conjI impI)
  show len: "length path = 28"
    by (simp add: path_def)
  show "sh_size (shdr InterpSection_ctor) = 28"
    by (simp add: InterpSection_ctor_def len)
  show "name InterpSection_ctor = ''.interp''"
    by (simp add: InterpSection_ctor_def)
next
  let ?pos = "unat (sh_offset (shdr c))"
  assume fits: "?pos + 28 \<le> length buf"
  have len: "length (bytes_of path) = 28"
    by (simp add: path_def length_bytes_of)
  have bytes: "bytes_of path = bytes_of ''/lib64/ld-linux-x86-64.so.2'' @ [0]"
    by (simp only: path_def bytes_of_append bytes_of_NUL)
  define buf' where "buf' = take ?pos buf @ bytes_of path @ drop (?pos + 28) buf"
  have res: "memcpy buf ?pos (bytes_of path) = Some buf'"
    using fits by (simp add: memcpy_def buf'_def len)
  have "InterpSection_copy_to c buf = Some buf'"
    using res by (simp add: InterpSection_copy_to_def)
  moreover have "length buf' = length buf"
    using res by (rule memcpy_length)
  moreover have "take 28 (drop ?pos buf') = bytes_of ''/lib64/ld-linux-x86-64.so.2'' @ [0]"
  proof -
    from memcpy_slice [OF res] have "take 28 (drop ?pos buf') = bytes_of path"
      by (simp only: len)
    then show ?thesis by (simp only: bytes)
  qed
  moreover have "\<forall>i<length buf. i < ?pos \<or> ?pos + 28 \<le> i \<longrightarrow> buf' ! i = buf ! i"
    using memcpy_frame [OF res] by (simp add: len)
  ultimately show "\<exists>buf'. InterpSection_copy_to c buf = Some buf' \<and>
      length buf' = length buf \<and>
      take 28 (drop ?pos buf') = bytes_of ''/lib64/ld-linux-x86-64.so.2'' @ [0] \<and>
      (\<forall>i<length buf. i < ?pos \<or> ?pos + 28 \<le> i \<longrightarrow> buf' ! i = buf ! i)"
    by blast
next
  assume "K_interp \<in> set (collect_chunks cfg osecs msecs)"
  then show "has_dynamic_segment cfg"
    by (auto simp: collect_chunks_def split: if_splits)
next
  assume "is_static cfg"
  then show "K_interp \<notin> set (collect_chunks cfg osecs msecs)"
    by (auto simp: collect_chunks_def has_dynamic_segment_def)
qed

theorem InterpSection_size_bytes_presence_witness:
  "InterpSection_copy_to ex_interp ex_blank32 =
     Some ([0xaa, 0xaa] @
       [0x2f, 0x6c, 0x69, 0x62, 0x36, 0x34, 0x2f, 0x6c, 0x64, 0x2d, 0x6c, 0x69, 0x6e, 0x75,
        0x78, 0x2d, 0x78, 0x38, 0x36, 0x2d, 0x36, 0x34, 0x2e, 0x73, 0x6f, 0x2e, 0x32, 0x00] @
       [0xaa, 0xaa]) \<and>
   K_interp \<in> set (collect_chunks (Config_default\<lparr>is_static := False\<rparr>) [0] []) \<and>
   has_dynamic_segment (Config_default\<lparr>is_static := False\<rparr>) \<and>
   is_static (Config_default\<lparr>is_static := True\<rparr>) \<and>
   K_interp \<notin> set (collect_chunks (Config_default\<lparr>is_static := True\<rparr>) [0] [])"
  using InterpSection_size_bytes_presence
      [of ex_interp ex_blank32 "Config_default\<lparr>is_static := False\<rparr>" "[0]" "[]"]
    InterpSection_size_bytes_presence
      [of ex_interp ex_blank32 "Config_default\<lparr>is_static := True\<rparr>" "[0]" "[]"]
  by (simp add: ex_interp_def ex_blank32_def ex_blank_def InterpSection_ctor_def
        InterpSection_copy_to_def memcpy_def path_def bytes_of_def NUL_def
        OutputChunk_ctor_def Shdr_zero_def Config_default_def collect_chunks_def
        has_dynamic_segment_def)

section \<open>Copy construction of a Symbol\<close>

text \<open>
  C10: copy-constructing a Symbol from any value \<open>v\<close> keeps the name and the owning file of
  \<open>v\<close> and nothing else: the input section and the piece are null, the piece offsets, the
  value, the got, gotplt, gottp, plt and relplt offsets, shndx, the atomic flags and the
  visibility are 0, the type is STT_NOTYPE (0), the five one-bit flags are false and the
  mutex is a fresh one, whatever these members hold in \<open>v\<close>.
\<close>

theorem Symbol_copy_keeps_name_and_file_only:
  "Symbol.name (Symbol_copy v) = Symbol.name v \<and>
   Symbol.file (Symbol_copy v) = Symbol.file v \<and>
   input_section (Symbol_copy v) = None \<and>
   piece (piece_ref (Symbol_copy v)) = None \<and>
   input_offset (piece_ref (Symbol_copy v)) = 0 \<and>
   addend (piece_ref (Symbol_copy v)) = 0 \<and>
   value (Symbol_copy v) = 0 \<and>
   got_offset (Symbol_copy v) = 0 \<and>
   gotplt_offset (Symbol_copy v) = 0 \<and>
   gottp_offset (Symbol_copy v) = 0 \<and>
   plt_offset (Symbol_copy v) = 0 \<and>
   relplt_offset (Symbol_copy v) = 0 \<and>
   Symbol.shndx (Symbol_copy v) = 0 \<and>
   flags (Symbol_copy v) = 0 \<and>
   visibility (Symbol_copy v) = 0 \<and>
   type (Symbol_copy v) = 0 \<and>
   \<not> mu (Symbol_copy v) \<and>
   \<not> is_placeholder (Symbol_copy v) \<and>
   \<not> Symbol.is_dso (Symbol_copy v) \<and>
   \<not> is_weak (Symbol_copy v) \<and>
   \<not> is_undef_weak (Symbol_copy v) \<and>
   \<not> traced (Symbol_copy v) \<and>
   Symbol_copy v = Symbol_ctor (Symbol.name v) (Symbol.file v)"
  by (simp add: Symbol_copy_def Symbol_ctor_def StringPieceRef_default_def STT_NOTYPE_def)

end
